theory Spec2Isabelle
  imports Main "HOL-Library.Word"
begin

section \<open>ICO generation (src/dist/lib/ico.js)\<close>

text \<open>
  A shallow embedding of \<^verbatim>\<open>ico.js\<close>: the pixel conversion \<^verbatim>\<open>convertPNGtoDIB\<close>, the three
  structure builders, the two writing loops, the promise-returning \<^verbatim>\<open>createIconFile\<close>
  and the entry point \<^verbatim>\<open>generateICO\<close>.

  Numbers. JavaScript numbers are doubles; every quantity below is an integer far below
  \<open>2 ^ 53\<close>, so arithmetic is exact. Widths, heights, lengths and counts come from the PNG
  decoder and from \<^verbatim>\<open>.length\<close>, which are never negative: they are \<open>nat\<close>. Values and
  offsets handed to the Buffer API are \<open>int\<close>, because \<^verbatim>\<open>rowEnd - row + col\<close> is a
  subtraction and the API range-checks what it is given.
\<close>

subsection \<open>Errors and results\<close>

datatype error =
    RangeError          \<comment> \<open>Node's \<^verbatim>\<open>ERR_OUT_OF_RANGE\<close>, thrown by the Buffer API\<close>
  | NoMatchingPNG       \<comment> \<open>\<^verbatim>\<open>Error('There was no PNG file matching the specified size.')\<close>\<close>
  | ENOENT              \<comment> \<open>no such file: \<^verbatim>\<open>unlinkSync\<close> or \<^verbatim>\<open>readFileSync\<close> on a missing path\<close>
  | DecodeFailure       \<comment> \<open>thrown by \<^verbatim>\<open>PNG.sync.read\<close>\<close>
  | OpenFailure         \<comment> \<open>the write stream could not open the destination\<close>
  | WriteFailure        \<comment> \<open>a write to the destination failed\<close>
  | FinishFailure       \<comment> \<open>the final flush of the stream failed\<close>
  | CloseFailure        \<comment> \<open>the descriptor of the stream could not be closed\<close>
  | EACCES              \<comment> \<open>permission denied\<close>
  | EPERM               \<comment> \<open>operation not permitted\<close>
  | EISDIR              \<comment> \<open>the path is a directory\<close>

text \<open>Sequencing of statements that may throw: the first exception ends the sequence.\<close>

definition andThen :: "error + 'a \<Rightarrow> ('a \<Rightarrow> error + 'b) \<Rightarrow> error + 'b" where
  "andThen m f = (case m of Inl e \<Rightarrow> Inl e | Inr x \<Rightarrow> f x)"

subsection \<open>Node's Buffer\<close>

type_synonym byte = "8 word"

type_synonym buffer = "byte list"

text \<open>\<^verbatim>\<open>Buffer.alloc(n)\<close>: a fresh buffer of \<open>n\<close> zero bytes.\<close>

definition alloc :: "nat \<Rightarrow> buffer" where
  "alloc n = replicate n 0"

text \<open>
  \<^verbatim>\<open>buf.readUInt8(offset)\<close> and \<^verbatim>\<open>buf.writeUInt8(value, offset)\<close>. Both throw a \<^verbatim>\<open>RangeError\<close> when
  the offset is outside the buffer; the write also when the value is outside \<open>0..255\<close>.
\<close>

definition readUInt8 :: "buffer \<Rightarrow> int \<Rightarrow> error + byte" where
  "readUInt8 buf off =
     (if 0 \<le> off \<and> off < int (length buf) then Inr (buf ! nat off) else Inl RangeError)"

definition writeUInt8 :: "buffer \<Rightarrow> int \<Rightarrow> int \<Rightarrow> error + buffer" where
  "writeUInt8 buf v off =
     (if 0 \<le> v \<and> v < 256 \<and> 0 \<le> off \<and> off < int (length buf)
      then Inr (buf[nat off := word_of_int v]) else Inl RangeError)"

text \<open>
  The \<open>n\<close> low bytes of an integer, least significant first. On a negative integer the
  floor division yields the two's complement bytes, as \<^verbatim>\<open>writeInt32LE\<close> stores them.
\<close>

fun le_bytes :: "nat \<Rightarrow> int \<Rightarrow> buffer" where
  "le_bytes 0 v = []"
| "le_bytes (Suc n) v = word_of_int v # le_bytes n (v div 256)"

definition write_bytes :: "buffer \<Rightarrow> buffer \<Rightarrow> nat \<Rightarrow> buffer" where
  "write_bytes buf bs off = take off buf @ bs @ drop (off + length bs) buf"

definition writeUInt16LE :: "buffer \<Rightarrow> int \<Rightarrow> int \<Rightarrow> error + buffer" where
  "writeUInt16LE buf v off =
     (if 0 \<le> v \<and> v < 2 ^ 16 \<and> 0 \<le> off \<and> off + 2 \<le> int (length buf)
      then Inr (write_bytes buf (le_bytes 2 v) (nat off)) else Inl RangeError)"

definition writeUInt32LE :: "buffer \<Rightarrow> int \<Rightarrow> int \<Rightarrow> error + buffer" where
  "writeUInt32LE buf v off =
     (if 0 \<le> v \<and> v < 2 ^ 32 \<and> 0 \<le> off \<and> off + 4 \<le> int (length buf)
      then Inr (write_bytes buf (le_bytes 4 v) (nat off)) else Inl RangeError)"

definition writeInt32LE :: "buffer \<Rightarrow> int \<Rightarrow> int \<Rightarrow> error + buffer" where
  "writeInt32LE buf v off =
     (if - (2 ^ 31) \<le> v \<and> v < 2 ^ 31 \<and> 0 \<le> off \<and> off + 4 \<le> int (length buf)
      then Inr (write_bytes buf (le_bytes 4 v) (nat off)) else Inl RangeError)"

text \<open>
  Readers of the same API, \<^verbatim>\<open>buf.readUIntLE(offset, byteLength)\<close> and
  \<^verbatim>\<open>buf.readIntLE(offset, byteLength)\<close>. The source never reads a header back; they are used
  to state what a field of an emitted structure holds.
\<close>

definition le_val :: "buffer \<Rightarrow> nat" where
  "le_val bs = foldr (\<lambda>b acc. unat b + 256 * acc) bs 0"

definition readUIntLE :: "buffer \<Rightarrow> nat \<Rightarrow> nat \<Rightarrow> nat" where
  "readUIntLE buf off n = le_val (take n (drop off buf))"

definition readIntLE :: "buffer \<Rightarrow> nat \<Rightarrow> nat \<Rightarrow> int" where
  "readIntLE buf off n =
     (let v = int (readUIntLE buf off n)
      in if v < 2 ^ (8 * n - 1) then v else v - 2 ^ (8 * n))"

subsection \<open>Constants\<close>

definition REQUIRED_IMAGE_SIZES :: "nat list" where
  "REQUIRED_IMAGE_SIZES = [16, 24, 32, 48, 64, 128, 256]"

definition DEFAULT_FILE_NAME :: string where
  "DEFAULT_FILE_NAME = ''app''"

definition FILE_EXTENSION :: string where
  "FILE_EXTENSION = ''.ico''"

definition FILE_HEADER_SIZE :: nat where
  "FILE_HEADER_SIZE = 6"

definition ICO_DIRECTORY_SIZE :: nat where
  "ICO_DIRECTORY_SIZE = 16"

definition BITMAPINFOHEADER_SIZE :: nat where
  "BITMAPINFOHEADER_SIZE = 40"

definition BI_RGB :: int where
  "BI_RGB = 0"

definition BPP_ALPHA :: nat where
  "BPP_ALPHA = 4"

subsection \<open>convertPNGtoDIB\<close>

text \<open>
  The state of the conversion: the buffer \<^verbatim>\<open>src\<close>, the buffer \<^verbatim>\<open>dest\<close>, and a history of
  the offsets passed to \<^verbatim>\<open>src.readUInt8\<close> and to \<^verbatim>\<open>dest.writeUInt8\<close>, in program order. The
  history has no counterpart in the source and nothing reads it; it is there so that
  statements about the accesses of the loop can be made.
\<close>

record conv =
  src_buf :: buffer
  dest_buf :: buffer
  reads :: "int list"
  writes :: "int list"

definition rd :: "int \<Rightarrow> conv \<Rightarrow> error + (byte \<times> conv)" where
  "rd pos st =
     (case readUInt8 (src_buf st) pos of
        Inl e \<Rightarrow> Inl e
      | Inr v \<Rightarrow> Inr (v, st\<lparr>reads := reads st @ [pos]\<rparr>))"

definition wr :: "byte \<Rightarrow> int \<Rightarrow> conv \<Rightarrow> error + conv" where
  "wr v pos st =
     (case writeUInt8 (dest_buf st) (uint v) pos of
        Inl e \<Rightarrow> Inl e
      | Inr d \<Rightarrow> Inr (st\<lparr>dest_buf := d, writes := writes st @ [pos]\<rparr>))"

text \<open>The body of the inner loop: four reads at \<^verbatim>\<open>row + col\<close>, four writes at
  \<^verbatim>\<open>rowEnd - row + col\<close>, red and blue exchanged.\<close>

definition pixel :: "int \<Rightarrow> nat \<Rightarrow> nat \<Rightarrow> conv \<Rightarrow> error + conv" where
  "pixel rowEnd row col st =
     (let pos = int row + int col in
      andThen (rd pos st) (\<lambda>(r, st).
      andThen (rd (pos + 1) st) (\<lambda>(g, st).
      andThen (rd (pos + 2) st) (\<lambda>(b, st).
      andThen (rd (pos + 3) st) (\<lambda>(a, st).
      let pos = rowEnd - int row + int col in
      andThen (wr b pos st) (\<lambda>st.
      andThen (wr g (pos + 1) st) (\<lambda>st.
      andThen (wr r (pos + 2) st) (\<lambda>st.
      wr a (pos + 3) st))))))))"

text \<open>
  \<^verbatim>\<open>for (let col = 0; col < cols; col += bpp)\<close> and
  \<^verbatim>\<open>for (let row = 0; row < rows; row += cols)\<close>. The loops recompute the constants
  \<^verbatim>\<open>cols\<close>, \<^verbatim>\<open>rows\<close> and \<^verbatim>\<open>rowEnd\<close> of the enclosing function from its arguments. Both
  terminate: a loop that is entered has a positive step, since \<open>col < w * bpp\<close> forces
  \<open>0 < bpp\<close> and \<open>row < h * (w * bpp)\<close> forces \<open>0 < w * bpp\<close>.
\<close>

function col_loop :: "nat \<Rightarrow> nat \<Rightarrow> int \<Rightarrow> nat \<Rightarrow> nat \<Rightarrow> conv \<Rightarrow> error + conv" where
  "col_loop w bpp rowEnd row col st =
     (let cols = w * bpp in
      if col < cols
      then (case pixel rowEnd row col st of
              Inl e \<Rightarrow> Inl e
            | Inr st' \<Rightarrow> col_loop w bpp rowEnd row (col + bpp) st')
      else Inr st)"
  by pat_completeness auto
termination
proof (relation "measure (\<lambda>(w, bpp, rowEnd, row, col, st). w * bpp - col)", goal_cases)
  case 1
  show ?case by simp
next
  case (2 w bpp rowEnd row col st cols st')
  then have "0 < bpp" by (cases bpp) auto
  with 2 show ?case by auto
qed

function row_loop :: "nat \<Rightarrow> nat \<Rightarrow> nat \<Rightarrow> nat \<Rightarrow> conv \<Rightarrow> error + conv" where
  "row_loop w h bpp row st =
     (let cols = w * bpp; rows = h * cols; rowEnd = int rows - int cols in
      if row < rows
      then (case col_loop w bpp rowEnd row 0 st of
              Inl e \<Rightarrow> Inl e
            | Inr st' \<Rightarrow> row_loop w h bpp (row + cols) st')
      else Inr st)"
  by pat_completeness auto
termination
proof (relation "measure (\<lambda>(w, h, bpp, row, st). h * (w * bpp) - row)", goal_cases)
  case 1
  show ?case by simp
next
  case (2 w h bpp row st cols rows rowEnd st')
  then have lt: "row < h * (w * bpp)" by simp
  then have "row < row + w * bpp" by (cases "w * bpp") auto
  with lt have "h * (w * bpp) - (row + w * bpp) < h * (w * bpp) - row"
    by linarith
  with 2 show ?case by simp
qed

text \<open>The whole conversion, with its access history, and the function as the source
  exports it: \<^verbatim>\<open>dest = Buffer.alloc(src.length)\<close>, the two loops, \<^verbatim>\<open>return dest\<close>.\<close>

definition convert_run :: "buffer \<Rightarrow> nat \<Rightarrow> nat \<Rightarrow> nat \<Rightarrow> error + conv" where
  "convert_run src w h bpp =
     row_loop w h bpp 0
       \<lparr>src_buf = src, dest_buf = alloc (length src), reads = [], writes = []\<rparr>"

definition convertPNGtoDIB :: "buffer \<Rightarrow> nat \<Rightarrow> nat \<Rightarrow> nat \<Rightarrow> error + buffer" where
  "convertPNGtoDIB src w h bpp =
     (case convert_run src w h bpp of Inl e \<Rightarrow> Inl e | Inr st \<Rightarrow> Inr (dest_buf st))"

subsection \<open>The structure builders\<close>

text \<open>A decoded PNG, as \<^verbatim>\<open>PNG.sync.read\<close> of pngjs returns it: the fields the source uses.\<close>

record png =
  width :: nat
  height :: nat
  data :: buffer

definition createBitmapInfoHeader :: "png \<Rightarrow> int \<Rightarrow> error + buffer" where
  "createBitmapInfoHeader p compression =
     (let b = alloc BITMAPINFOHEADER_SIZE in
      andThen (writeUInt32LE b (int BITMAPINFOHEADER_SIZE) 0) (\<lambda>b.
      andThen (writeInt32LE b (int (width p)) 4) (\<lambda>b.
      andThen (writeInt32LE b (int (height p * 2)) 8) (\<lambda>b.
      andThen (writeUInt16LE b 1 12) (\<lambda>b.
      andThen (writeUInt16LE b (int (BPP_ALPHA * 8)) 14) (\<lambda>b.
      andThen (writeUInt32LE b compression 16) (\<lambda>b.
      andThen (writeUInt32LE b (int (length (data p))) 20) (\<lambda>b.
      andThen (writeInt32LE b 0 24) (\<lambda>b.
      andThen (writeInt32LE b 0 28) (\<lambda>b.
      andThen (writeUInt32LE b 0 32) (\<lambda>b.
      writeUInt32LE b 0 36)))))))))))"

definition createDirectory :: "png \<Rightarrow> nat \<Rightarrow> error + buffer" where
  "createDirectory p offset =
     (let b = alloc ICO_DIRECTORY_SIZE;
          size = length (data p) + BITMAPINFOHEADER_SIZE;
          w = (if 256 \<le> width p then 0 else width p);
          h = (if 256 \<le> height p then 0 else height p);
          bpp = BPP_ALPHA * 8 in
      andThen (writeUInt8 b (int w) 0) (\<lambda>b.
      andThen (writeUInt8 b (int h) 1) (\<lambda>b.
      andThen (writeUInt8 b 0 2) (\<lambda>b.
      andThen (writeUInt8 b 0 3) (\<lambda>b.
      andThen (writeUInt16LE b 1 4) (\<lambda>b.
      andThen (writeUInt16LE b (int bpp) 6) (\<lambda>b.
      andThen (writeUInt32LE b (int size) 8) (\<lambda>b.
      writeUInt32LE b (int offset) 12))))))))"

definition createFileHeader :: "nat \<Rightarrow> error + buffer" where
  "createFileHeader count =
     (let b = alloc FILE_HEADER_SIZE in
      andThen (writeUInt16LE b 0 0) (\<lambda>b.
      andThen (writeUInt16LE b 1 2) (\<lambda>b.
      writeUInt16LE b (int count) 4)))"

subsection \<open>Writing to the stream\<close>

text \<open>
  The write stream, as far as the handler of its \<^verbatim>\<open>ready\<close> event is concerned: the buffers
  handed to \<^verbatim>\<open>stream.write\<close>, in order. The bytes of the file are their concatenation.
\<close>

type_synonym stream = "buffer list"

definition stream_write :: "stream \<Rightarrow> buffer \<Rightarrow> stream" where
  "stream_write stream chunk = stream @ [chunk]"

text \<open>\<^verbatim>\<open>writeDirectories\<close>: the loop over \<^verbatim>\<open>pngs\<close> with the running \<^verbatim>\<open>offset\<close>, and the
  function that initialises it.\<close>

fun directories_loop :: "png list \<Rightarrow> nat \<Rightarrow> stream \<Rightarrow> error + stream" where
  "directories_loop [] offset stream = Inr stream"
| "directories_loop (p # rest) offset stream =
     (case createDirectory p offset of
        Inl e \<Rightarrow> Inl e
      | Inr directory \<Rightarrow>
          directories_loop rest (offset + (length (data p) + BITMAPINFOHEADER_SIZE))
            (stream_write stream directory))"

definition writeDirectories :: "png list \<Rightarrow> stream \<Rightarrow> error + stream" where
  "writeDirectories pngs stream =
     directories_loop pngs (FILE_HEADER_SIZE + ICO_DIRECTORY_SIZE * length pngs) stream"

fun writePNGs :: "png list \<Rightarrow> stream \<Rightarrow> error + stream" where
  "writePNGs [] stream = Inr stream"
| "writePNGs (p # rest) stream =
     (case createBitmapInfoHeader p BI_RGB of
        Inl e \<Rightarrow> Inl e
      | Inr header \<Rightarrow>
          (let stream = stream_write stream header in
           case convertPNGtoDIB (data p) (width p) (height p) BPP_ALPHA of
             Inl e \<Rightarrow> Inl e
           | Inr dib \<Rightarrow> writePNGs rest (stream_write stream dib)))"

text \<open>The handler of the \<^verbatim>\<open>ready\<close> event, up to \<^verbatim>\<open>stream.end()\<close>: what it has handed to
  the stream, or the exception it threw.\<close>

definition on_ready :: "png list \<Rightarrow> error + stream" where
  "on_ready pngs =
     andThen (createFileHeader (length pngs)) (\<lambda>header.
     andThen (writeDirectories pngs (stream_write [] header)) (\<lambda>stream.
     writePNGs pngs stream))"

subsection \<open>The file system, the stream's events and the promise\<close>

text \<open>
  The files a run can touch, by path, and the paths the system refuses to unlink, each
  with the error it answers: \<^verbatim>\<open>EISDIR\<close> or \<^verbatim>\<open>EPERM\<close> for a directory, \<^verbatim>\<open>EACCES\<close> or \<^verbatim>\<open>EPERM\<close>
  for a file in a directory that may not be written.
\<close>

type_synonym files = "string \<rightharpoonup> buffer"

type_synonym refusals = "string \<rightharpoonup> error"

text \<open>
  \<^verbatim>\<open>fs.unlinkSync\<close> has three outcomes: it throws the error of a refused path and leaves
  everything as it was, it throws \<^verbatim>\<open>ENOENT\<close> when there is no file at the path, or it
  removes the file. \<^verbatim>\<open>fs.readFileSync\<close> returns the bytes of a file and throws \<^verbatim>\<open>ENOENT\<close>
  when there is none.
\<close>

definition unlinkSync :: "string \<Rightarrow> refusals \<Rightarrow> files \<Rightarrow> error + files" where
  "unlinkSync path refused fs =
     (case refused path of
        Some e \<Rightarrow> Inl e
      | None \<Rightarrow> (case fs path of None \<Rightarrow> Inl ENOENT | Some _ \<Rightarrow> Inr (fs(path := None))))"

definition readFileSync :: "string \<Rightarrow> files \<Rightarrow> error + buffer" where
  "readFileSync path fs = (case fs path of None \<Rightarrow> Inl ENOENT | Some b \<Rightarrow> Inr b)"

text \<open>
  What the environment does to the write stream during one run, told by the events the
  stream emits. The source listens to three of them: \<^verbatim>\<open>ready\<close> runs the handler that
  writes, \<^verbatim>\<open>error\<close> calls \<^verbatim>\<open>reject\<close>, \<^verbatim>\<open>finish\<close> calls \<^verbatim>\<open>resolve\<close>; a promise is settled
  by the first of \<^verbatim>\<open>resolve\<close> and \<^verbatim>\<open>reject\<close> that is called, and a later call changes
  nothing.

  \<^item> \<open>NoFault\<close>: \<^verbatim>\<open>ready\<close>, then \<^verbatim>\<open>finish\<close> once every chunk is in the file.
  \<^item> \<open>OpenFault e\<close>: the destination cannot be opened: \<^verbatim>\<open>error\<close>, and no \<^verbatim>\<open>ready\<close>.
  \<^item> \<open>WriteFault k e\<close>: \<^verbatim>\<open>ready\<close>; the chunks before the one of index \<open>k\<close> reach the
    file, the write of that chunk fails: \<^verbatim>\<open>error\<close>, and no \<^verbatim>\<open>finish\<close>.
  \<^item> \<open>FinishFault e\<close>: \<^verbatim>\<open>ready\<close>; every chunk reaches the file, and the stream fails
    after \<^verbatim>\<open>stream.end()\<close> before it has finished: \<^verbatim>\<open>error\<close> in place of \<^verbatim>\<open>finish\<close>.
  \<^item> \<open>CloseFault e\<close>: \<^verbatim>\<open>ready\<close>, then \<^verbatim>\<open>finish\<close>, and the descriptor cannot be
    closed afterwards: \<^verbatim>\<open>error\<close> comes after \<^verbatim>\<open>finish\<close>, when the promise is fulfilled
    already.
\<close>

datatype sink_fault =
    NoFault
  | OpenFault error
  | WriteFault nat error
  | FinishFault error
  | CloseFault error

text \<open>
  How an asynchronous operation ends for its caller: the promise is fulfilled, or it is
  rejected (\<^verbatim>\<open>await\<close> throws the error), or an exception escapes from an event handler.
  The \<^verbatim>\<open>ready\<close> handler runs from the event loop, outside the promise's executor, so an
  exception thrown in it reaches neither \<^verbatim>\<open>reject\<close> nor the \<^verbatim>\<open>catch\<close> of the caller: the
  promise stays pending unless a later event of the stream settles it.
\<close>

datatype 'a outcome =
    Resolved 'a
  | Rejected error
  | Uncaught error

text \<open>
  The buffers the handler of \<^verbatim>\<open>ready\<close> has handed to the stream at the moment it stops,
  whether it returns or throws: the same statements as \<open>directories_loop\<close>, \<open>writePNGs\<close>
  and \<open>on_ready\<close>, keeping the stream where those keep the exception. A stream writes what
  it was handed also when the handler throws afterwards.
\<close>

fun directories_written :: "png list \<Rightarrow> nat \<Rightarrow> stream \<Rightarrow> stream" where
  "directories_written [] offset stream = stream"
| "directories_written (p # rest) offset stream =
     (case createDirectory p offset of
        Inl e \<Rightarrow> stream
      | Inr directory \<Rightarrow>
          directories_written rest (offset + (length (data p) + BITMAPINFOHEADER_SIZE))
            (stream_write stream directory))"

fun PNGs_written :: "png list \<Rightarrow> stream \<Rightarrow> stream" where
  "PNGs_written [] stream = stream"
| "PNGs_written (p # rest) stream =
     (case createBitmapInfoHeader p BI_RGB of
        Inl e \<Rightarrow> stream
      | Inr header \<Rightarrow>
          (let stream = stream_write stream header in
           case convertPNGtoDIB (data p) (width p) (height p) BPP_ALPHA of
             Inl e \<Rightarrow> stream
           | Inr dib \<Rightarrow> PNGs_written rest (stream_write stream dib)))"

definition ready_written :: "png list \<Rightarrow> stream" where
  "ready_written pngs =
     (case createFileHeader (length pngs) of
        Inl e \<Rightarrow> []
      | Inr header \<Rightarrow>
          (let stream = stream_write [] header in
           case writeDirectories pngs stream of
             Inl e \<Rightarrow>
               directories_written pngs (FILE_HEADER_SIZE + ICO_DIRECTORY_SIZE * length pngs)
                 stream
           | Inr stream \<Rightarrow> PNGs_written pngs stream))"

text \<open>
  \<^verbatim>\<open>createIconFile\<close>. An empty list is rejected before a stream is created. Opening the
  stream creates the file, or truncates the one that is there; a failed open leaves the
  files as they were. The handler then hands all its buffers to the stream in one go, and
  the stream writes them one after the other: a write that fails leaves the chunks before
  it in the file. When the handler itself throws, the exception escapes, \<^verbatim>\<open>stream.end()\<close>
  has not been called, and the stream still writes the buffers it had been handed before:
  the file holds those bytes (a header, a directory entry and a bitmap header, 62 bytes,
  for one image whose conversion throws), there is no \<^verbatim>\<open>finish\<close>, and only a write that
  fails among them settles the promise, by \<^verbatim>\<open>error\<close>. A stream that cannot be closed has
  emitted \<^verbatim>\<open>finish\<close> before: the promise is fulfilled and the file is complete.
\<close>

definition createIconFile :: "png list \<Rightarrow> string \<Rightarrow> sink_fault \<Rightarrow> files \<Rightarrow> unit outcome \<times> files" where
  "createIconFile pngs file_path fault fs =
     (if length pngs = 0 then (Rejected NoMatchingPNG, fs)
      else
        (case fault of
           OpenFault err \<Rightarrow> (Rejected err, fs)
         | _ \<Rightarrow>
            (let fs = fs(file_path \<mapsto> []) in
             case on_ready pngs of
               Inl e \<Rightarrow>
                (let written = ready_written pngs in
                 case fault of
                   WriteFault k err \<Rightarrow>
                     if k < length written
                     then (Rejected err, fs(file_path \<mapsto> concat (take k written)))
                     else (Uncaught e, fs(file_path \<mapsto> concat written))
                 | _ \<Rightarrow> (Uncaught e, fs(file_path \<mapsto> concat written)))
             | Inr chunks \<Rightarrow>
                (case fault of
                   WriteFault k err \<Rightarrow>
                     if k < length chunks
                     then (Rejected err, fs(file_path \<mapsto> concat (take k chunks)))
                     else (Resolved (), fs(file_path \<mapsto> concat chunks))
                 | FinishFault err \<Rightarrow> (Rejected err, fs(file_path \<mapsto> concat chunks))
                 | CloseFault err \<Rightarrow> (Resolved (), fs(file_path \<mapsto> concat chunks))
                 | _ \<Rightarrow> (Resolved (), fs(file_path \<mapsto> concat chunks))))))"

subsection \<open>generateICO\<close>

text \<open>An entry of \<^verbatim>\<open>images\<close>; the source reads its \<^verbatim>\<open>filePath\<close> only.\<close>

record image_info =
  filePath :: string

record options =
  name :: "string option"
  sizes :: "nat list option"

text \<open>
  What \<^verbatim>\<open>ico.js\<close> imports: \<^verbatim>\<open>filterImagesBySizes\<close> of \<^verbatim>\<open>./png\<close>, \<^verbatim>\<open>PNG.sync.read\<close> of pngjs and
  \<^verbatim>\<open>path.join\<close>, taken as parameters, and the behaviour of the write stream.
\<close>

record 'i env =
  filterImagesBySizes :: "'i list \<Rightarrow> nat list \<Rightarrow> 'i list"
  PNG_sync_read :: "buffer \<Rightarrow> error + png"
  path_join :: "string \<Rightarrow> string \<Rightarrow> string"
  sink :: sink_fault

text \<open>The state a run works on: the files, the paths that cannot be unlinked, and the
  lines the logger has received.\<close>

record world =
  files :: files
  unlink_refused :: refusals
  logged :: "string list"

definition logger_log :: "string \<Rightarrow> world \<Rightarrow> world" where
  "logger_log line wd = wd\<lparr>logged := logged wd @ [line]\<rparr>"

text \<open>\<^verbatim>\<open>targets.map(...)\<close> in \<^verbatim>\<open>readPNGs\<close>: the first file that cannot be read or decoded
  throws.\<close>

fun read_targets :: "(buffer \<Rightarrow> error + png) \<Rightarrow> files \<Rightarrow> ('a image_info_scheme) list \<Rightarrow> error + png list" where
  "read_targets decode fs [] = Inr []"
| "read_targets decode fs (img # rest) =
     (case readFileSync (filePath img) fs of
        Inl e \<Rightarrow> Inl e
      | Inr bytes \<Rightarrow>
         (case decode bytes of
            Inl e \<Rightarrow> Inl e
          | Inr p \<Rightarrow>
             (case read_targets decode fs rest of
                Inl e \<Rightarrow> Inl e
              | Inr ps \<Rightarrow> Inr (p # ps))))"

definition readPNGs :: "('a image_info_scheme) env \<Rightarrow> files \<Rightarrow> ('a image_info_scheme) list \<Rightarrow> nat list \<Rightarrow> error + png list" where
  "readPNGs env fs images szs =
     (let targets = filterImagesBySizes env images szs
      in read_targets (PNG_sync_read env) fs targets)"

text \<open>
  The object \<^verbatim>\<open>opt\<close>: the name and the sizes of the options, or their defaults, and the
  destination path \<^verbatim>\<open>dest\<close>.
\<close>

definition opt_name :: "options \<Rightarrow> string" where
  "opt_name opts =
     (case name opts of
        None \<Rightarrow> DEFAULT_FILE_NAME
      | Some n \<Rightarrow> if n \<noteq> [] then n else DEFAULT_FILE_NAME)"

definition opt_sizes :: "options \<Rightarrow> nat list" where
  "opt_sizes opts =
     (case sizes opts of
        None \<Rightarrow> REQUIRED_IMAGE_SIZES
      | Some s \<Rightarrow> if 0 < length s then s else REQUIRED_IMAGE_SIZES)"

definition dest_path :: "'i env \<Rightarrow> string \<Rightarrow> options \<Rightarrow> string" where
  "dest_path env dir opts = path_join env dir (opt_name opts @ FILE_EXTENSION)"

text \<open>The \<^verbatim>\<open>catch\<close> block of \<^verbatim>\<open>generateICO\<close>: \<^verbatim>\<open>fs.unlinkSync(dest); throw err\<close>. When
  \<^verbatim>\<open>unlinkSync\<close> itself throws, its exception is the one that leaves the block, and
  \<^verbatim>\<open>throw err\<close> is not reached.\<close>

definition catch_block :: "string \<Rightarrow> error \<Rightarrow> world \<Rightarrow> string outcome \<times> world" where
  "catch_block dest err wd =
     (case unlinkSync dest (unlink_refused wd) (files wd) of
        Inl e \<Rightarrow> (Rejected e, wd)
      | Inr fs \<Rightarrow> (Rejected err, wd\<lparr>files := fs\<rparr>))"

definition generateICO ::
  "('a image_info_scheme) env \<Rightarrow> ('a image_info_scheme) list \<Rightarrow> string \<Rightarrow> options \<Rightarrow> world
     \<Rightarrow> string outcome \<times> world" where
  "generateICO env images dir opts wd0 =
     (let wd = logger_log ''ICO:'' wd0;
          dest = dest_path env dir opts
      in case readPNGs env (files wd) images (opt_sizes opts) of
           Inl err \<Rightarrow> catch_block dest err wd
         | Inr pngs \<Rightarrow>
            (case createIconFile pngs dest (sink env) (files wd) of
               (Rejected err, fs) \<Rightarrow> catch_block dest err (wd\<lparr>files := fs\<rparr>)
             | (Uncaught err, fs) \<Rightarrow> (Uncaught err, wd\<lparr>files := fs\<rparr>)
             | (Resolved u, fs) \<Rightarrow>
                 (Resolved dest, logger_log (''  Create: '' @ dest) (wd\<lparr>files := fs\<rparr>))))"

text \<open>An example environment: every image matches, a file of four bytes decodes to a
  1 by 1 image and any other file is not a PNG, and the write stream behaves as given. In
  the example world there is one source file, nothing at any destination, and no path is
  refused.\<close>

definition example_env :: "sink_fault \<Rightarrow> image_info env" where
  "example_env fault =
     \<lparr>filterImagesBySizes = (\<lambda>images szs. images),
      PNG_sync_read = (\<lambda>bytes. if length bytes = 4
                                then Inr \<lparr>width = 1, height = 1, data = bytes\<rparr>
                                else Inl DecodeFailure),
      path_join = (\<lambda>dir file. dir @ ''/'' @ file),
      sink = fault\<rparr>"

definition example_world :: world where
  "example_world =
     \<lparr>files = [''a.png'' \<mapsto> [1, 2, 3, 4]], unlink_refused = Map.empty, logged = []\<rparr>"

subsection \<open>Auxiliary notions used in the statements\<close>

text \<open>
  The exchange of the red and the blue channel on a byte index: index \<open>4 * c + i\<close> of a row
  goes to \<open>4 * c + swap_ch i\<close>, with \<open>swap_ch\<close> exchanging 0 and 2.
\<close>

definition swap_ch :: "nat \<Rightarrow> nat" where
  "swap_ch i = (if i = 0 then 2 else if i = 2 then 0 else i)"

definition swap_rb :: "nat \<Rightarrow> nat" where
  "swap_rb k = 4 * (k div 4) + swap_ch (k mod 4)"

text \<open>The offsets written by the rows \<open>r, r + 1, \<dots>, h - 1\<close> of the source, in program
  order: source row \<open>r'\<close> fills destination row \<open>h - 1 - r'\<close>.\<close>

definition row_writes :: "nat \<Rightarrow> nat \<Rightarrow> nat \<Rightarrow> int list" where
  "row_writes w h r =
     concat (map (\<lambda>r'. map int [(h - 1 - r') * (4 * w) ..< (h - r') * (4 * w)]) [r..<h])"

text \<open>Where the conversion takes the byte at index \<open>j\<close> of a \<open>w\<close> by \<open>h\<close> image from: the
  row is mirrored, the channel exchanged.\<close>

definition flip_index :: "nat \<Rightarrow> nat \<Rightarrow> nat \<Rightarrow> nat" where
  "flip_index w h j = (h - 1 - j div (4 * w)) * (4 * w) + swap_rb (j mod (4 * w))"

text \<open>
  The inverse transform of the specification's round-trip law, written from its words and
  not from the source (the source has no such function): the rows of a bottom-up buffer are
  put back in top-down order, and every pixel goes from B, G, R, A to R, G, B, A.
\<close>

function chunks_of :: "nat \<Rightarrow> 'a list \<Rightarrow> 'a list list" where
  "chunks_of n xs = (if n = 0 \<or> xs = [] then [] else take n xs # chunks_of n (drop n xs))"
  by pat_completeness auto
termination
  by (relation "measure (\<lambda>(n, xs). length xs)") auto

definition bgra_to_rgba :: "buffer \<Rightarrow> buffer" where
  "bgra_to_rgba px = [px ! 2, px ! 1, px ! 0, px ! 3]"

definition DIB_to_RGBA :: "buffer \<Rightarrow> nat \<Rightarrow> buffer" where
  "DIB_to_RGBA dib w =
     concat (map (\<lambda>row. concat (map bgra_to_rgba (chunks_of 4 row))) (rev (chunks_of (w * 4) dib)))"

text \<open>The sixteen bytes of a directory entry and the forty bytes of a bitmap info header,
  field after field, as the builders are shown below to produce them.\<close>

definition directory_bytes :: "png \<Rightarrow> nat \<Rightarrow> buffer" where
  "directory_bytes p offset =
     [word_of_int (int (if 256 \<le> width p then 0 else width p)),
      word_of_int (int (if 256 \<le> height p then 0 else height p)), 0, 0] @
     le_bytes 2 1 @ le_bytes 2 32 @
     le_bytes 4 (int (length (data p) + 40)) @ le_bytes 4 (int offset)"

definition header_bytes :: "png \<Rightarrow> int \<Rightarrow> buffer" where
  "header_bytes p compression =
     le_bytes 4 40 @ le_bytes 4 (int (width p)) @ le_bytes 4 (int (height p * 2)) @
     le_bytes 2 1 @ le_bytes 2 32 @ le_bytes 4 compression @
     le_bytes 4 (int (length (data p))) @
     le_bytes 4 0 @ le_bytes 4 0 @ le_bytes 4 0 @ le_bytes 4 0"

text \<open>
  What the handler of the \<^verbatim>\<open>ready\<close> event hands to the stream after the file header: the
  directory entries with their running offset, and for each image its header and its
  converted pixels (the empty buffer stands for a conversion that threw). The number of
  bytes of the blocks of the first \<open>i\<close> images is \<open>blocks_before\<close>.
\<close>

definition blocks_before :: "png list \<Rightarrow> nat \<Rightarrow> nat" where
  "blocks_before ps i = sum_list (map (\<lambda>p. length (data p) + BITMAPINFOHEADER_SIZE) (take i ps))"

fun dir_chunks :: "png list \<Rightarrow> nat \<Rightarrow> buffer list" where
  "dir_chunks [] offset = []"
| "dir_chunks (p # rest) offset =
     directory_bytes p offset # dir_chunks rest (offset + (length (data p) + BITMAPINFOHEADER_SIZE))"

definition dib_of :: "png \<Rightarrow> buffer" where
  "dib_of p =
     (case convertPNGtoDIB (data p) (width p) (height p) BPP_ALPHA of
        Inl e \<Rightarrow> [] | Inr dib \<Rightarrow> dib)"

text \<open>A small run used as an example: a 1 by 1 and a 1 by 2 image, and the seven buffers the
  handler writes for them.\<close>

definition example_pngs :: "png list" where
  "example_pngs =
     [\<lparr>width = 1, height = 1, data = [1, 2, 3, 4]\<rparr>,
      \<lparr>width = 1, height = 2, data = [1, 2, 3, 4, 5, 6, 7, 8]\<rparr>]"

definition example_chunks :: "buffer list" where
  "example_chunks =
     [[0, 0, 1, 0, 2, 0],
      [1, 1, 0, 0, 1, 0, 32, 0, 44, 0, 0, 0, 38, 0, 0, 0],
      [1, 2, 0, 0, 1, 0, 32, 0, 48, 0, 0, 0, 82, 0, 0, 0],
      [40, 0, 0, 0, 1, 0, 0, 0, 2, 0, 0, 0, 1, 0, 32, 0, 0, 0, 0, 0, 4, 0,
       0, 0, 0, 0, 0, 0, 0, 0, 0, 0, 0, 0, 0, 0, 0, 0, 0, 0],
      [3, 2, 1, 4],
      [40, 0, 0, 0, 1, 0, 0, 0, 4, 0, 0, 0, 1, 0, 32, 0, 0, 0, 0, 0, 8, 0,
       0, 0, 0, 0, 0, 0, 0, 0, 0, 0, 0, 0, 0, 0, 0, 0, 0, 0],
      [7, 6, 5, 8, 3, 2, 1, 4]]"

section \<open>Properties\<close>

declare col_loop.simps [simp del] row_loop.simps [simp del] chunks_of.simps [simp del]
  le_bytes.simps [simp del]

subsection \<open>Channel exchange\<close>

lemma swap_ch_less: "i < 4 \<Longrightarrow> swap_ch i < 4"
  by (simp add: swap_ch_def)

lemma swap_ch_invol: "swap_ch (swap_ch i) = i"
  by (simp add: swap_ch_def)

lemma swap_rb_div: "swap_rb k div 4 = k div 4"
  by (simp add: swap_rb_def swap_ch_less)

lemma swap_rb_mod: "swap_rb k mod 4 = swap_ch (k mod 4)"
  by (simp add: swap_rb_def swap_ch_less)

lemma swap_rb_invol: "swap_rb (swap_rb k) = k"
  by (simp add: swap_rb_def swap_ch_less swap_ch_invol)

lemma swap_rb_less: "k < 4 * w \<Longrightarrow> swap_rb k < 4 * w"
proof -
  assume "k < 4 * w"
  then have "k div 4 < w" by simp
  then have "4 * (k div 4) + 4 \<le> 4 * w" by simp
  moreover have "swap_ch (k mod 4) < 4" by (simp add: swap_ch_less)
  ultimately show ?thesis by (simp add: swap_rb_def)
qed

lemma swap_rb_add: "i < 4 \<Longrightarrow> swap_rb (4 * c + i) = 4 * c + swap_ch i"
  by (simp add: swap_rb_def)

subsection \<open>The loops of the conversion\<close>

lemma pixel_ok:
  assumes "row + col + 3 < length (src_buf st)"
    and "rowEnd - int row = int q0"
    and "q0 + col + 3 < length (dest_buf st)"
  shows "pixel rowEnd row col st =
     Inr (st\<lparr>dest_buf := (dest_buf st)[q0 + col := src_buf st ! (row + col + 2),
                          q0 + col + 1 := src_buf st ! (row + col + 1),
                          q0 + col + 2 := src_buf st ! (row + col),
                          q0 + col + 3 := src_buf st ! (row + col + 3)],
          reads := reads st @ map int [row + col, row + col + 1, row + col + 2, row + col + 3],
          writes := writes st @ map int [q0 + col, q0 + col + 1, q0 + col + 2, q0 + col + 3]\<rparr>)"
proof -
  have q: "rowEnd - int row + int col = int (q0 + col)"
    using assms(2) by simp
  have u: "\<And>x::byte. uint x < 256"
    using uint_bounded [where 'a = 8] by simp
  show ?thesis
    unfolding pixel_def Let_def q
    using assms(1,3)
    by (simp add: rd_def wr_def readUInt8_def writeUInt8_def andThen_def nat_add_distrib u)
qed

lemma quad_nth:
  assumes "i < 4"
  shows "[f (2::nat), f 1, f 0, f 3] ! i = f (swap_ch i)"
proof -
  from assms consider "i = 0" | "i = 1" | "i = 2" | "i = 3" by linarith
  then show ?thesis by cases (simp_all add: swap_ch_def)
qed

lemma quad_update_nth:
  assumes "j < length d"
  shows "d[q := a0, q + 1 := a1, q + 2 := a2, q + 3 := a3] ! j =
     (if q \<le> j \<and> j < q + 4 then [a0, a1, a2, a3] ! (j - q) else d ! j)"
proof (cases "q \<le> j \<and> j < q + 4")
  case True
  then consider "j = q" | "j = q + 1" | "j = q + 2" | "j = q + 3" by linarith
  then show ?thesis using assms by cases (simp_all add: nth_list_update)
next
  case False
  then show ?thesis using assms by (auto simp: nth_list_update)
qed

lemma upt_quad: "a + 4 \<le> b \<Longrightarrow> [a..<b] = [a, a + 1, a + 2, a + 3] @ [a + 4..<b]"
proof -
  assume le: "a + 4 \<le> b"
  have "[a..<a + 4] = [a, a + 1, a + 2, a + 3]"
    by (simp add: upt_rec [of a] upt_rec [of "Suc a"] upt_rec [of "Suc (Suc a)"]
        upt_rec [of "Suc (Suc (Suc a))"] upt_rec [of "Suc (Suc (Suc (Suc a)))"])
  moreover have "[a..<b] = [a..<a + 4] @ [a + 4..<b]"
    using le upt_add_eq_append [of a "a + 4" "b - (a + 4)"] by simp
  ultimately show ?thesis by simp
qed

lemma col_loop_ok:
  assumes "col = 4 * c" "c \<le> w" "row + 4 * w \<le> length (src_buf st)"
    "rowEnd - int row = int q0" "q0 + 4 * w \<le> length (dest_buf st)"
  shows "\<exists>st'. col_loop w 4 rowEnd row col st = Inr st' \<and>
     src_buf st' = src_buf st \<and>
     length (dest_buf st') = length (dest_buf st) \<and>
     reads st' = reads st @ map int [row + col ..< row + 4 * w] \<and>
     writes st' = writes st @ map int [q0 + col ..< q0 + 4 * w] \<and>
     (\<forall>j < length (dest_buf st). dest_buf st' ! j =
        (if q0 + col \<le> j \<and> j < q0 + 4 * w then src_buf st ! (row + swap_rb (j - q0))
         else dest_buf st ! j))"
  using assms(1,2,3,5)
proof (induction "w - c" arbitrary: c col st)
  case 0
  then have "\<not> col < w * 4" by simp
  then have "col_loop w 4 rowEnd row col st = Inr st"
    by (subst col_loop.simps) simp
  then show ?case using 0 by auto
next
  case (Suc n)
  from Suc.hyps(2) Suc.prems have c: "c < w" and col: "col + 4 \<le> 4 * w"
    by simp_all
  define st1 where "st1 =
     st\<lparr>dest_buf := (dest_buf st)[q0 + col := src_buf st ! (row + col + 2),
                          q0 + col + 1 := src_buf st ! (row + col + 1),
                          q0 + col + 2 := src_buf st ! (row + col),
                          q0 + col + 3 := src_buf st ! (row + col + 3)],
          reads := reads st @ map int [row + col, row + col + 1, row + col + 2, row + col + 3],
          writes := writes st @ map int [q0 + col, q0 + col + 1, q0 + col + 2, q0 + col + 3]\<rparr>"
  have p: "pixel rowEnd row col st = Inr st1"
    unfolding st1_def
    using col assms(4) Suc.prems(3,4) by (intro pixel_ok) simp_all
  have len1: "length (dest_buf st1) = length (dest_buf st)"
    by (simp add: st1_def)
  have src1: "src_buf st1 = src_buf st"
    by (simp add: st1_def)
  have dest1: "dest_buf st1 = (dest_buf st)[q0 + col := src_buf st ! (row + col + 2),
                          q0 + col + 1 := src_buf st ! (row + col + 1),
                          q0 + col + 2 := src_buf st ! (row + col),
                          q0 + col + 3 := src_buf st ! (row + col + 3)]"
    by (simp add: st1_def)
  have "n = w - Suc c" using Suc.hyps(2) by simp
  moreover have "col + 4 = 4 * Suc c" using Suc.prems(1) by simp
  moreover have "Suc c \<le> w" using c by simp
  moreover have "row + 4 * w \<le> length (src_buf st1)" using Suc.prems(3) src1 by simp
  moreover have "q0 + 4 * w \<le> length (dest_buf st1)" using Suc.prems(4) len1 by simp
  ultimately obtain st' where
    run: "col_loop w 4 rowEnd row (col + 4) st1 = Inr st'"
    and srcs: "src_buf st' = src_buf st"
    and len: "length (dest_buf st') = length (dest_buf st1)"
    and rds: "reads st' = reads st1 @ map int [row + (col + 4) ..< row + 4 * w]"
    and wrs: "writes st' = writes st1 @ map int [q0 + (col + 4) ..< q0 + 4 * w]"
    and nth: "\<forall>j < length (dest_buf st1). dest_buf st' ! j =
        (if q0 + (col + 4) \<le> j \<and> j < q0 + 4 * w then src_buf st ! (row + swap_rb (j - q0))
         else dest_buf st1 ! j)"
    using Suc.hyps(1) [of "Suc c" "col + 4" st1] unfolding src1 by blast
  have run': "col_loop w 4 rowEnd row col st = Inr st'"
    using col by (subst col_loop.simps) (simp add: p run)
  have upt1: "[row + col ..< row + 4 * w] =
      [row + col, row + col + 1, row + col + 2, row + col + 3] @ [row + (col + 4) ..< row + 4 * w]"
    using col upt_quad [of "row + col" "row + 4 * w"] by (simp add: add.assoc)
  have upt2: "[q0 + col ..< q0 + 4 * w] =
      [q0 + col, q0 + col + 1, q0 + col + 2, q0 + col + 3] @ [q0 + (col + 4) ..< q0 + 4 * w]"
    using col upt_quad [of "q0 + col" "q0 + 4 * w"] by (simp add: add.assoc)
  have rds': "reads st' = reads st @ map int [row + col ..< row + 4 * w]"
    unfolding rds upt1 by (simp add: st1_def)
  have wrs': "writes st' = writes st @ map int [q0 + col ..< q0 + 4 * w]"
    unfolding wrs upt2 by (simp add: st1_def)
  have nth': "dest_buf st' ! j =
        (if q0 + col \<le> j \<and> j < q0 + 4 * w then src_buf st ! (row + swap_rb (j - q0))
         else dest_buf st ! j)" if j: "j < length (dest_buf st)" for j
  proof -
    have d1: "dest_buf st1 ! j =
       (if q0 + col \<le> j \<and> j < q0 + col + 4
        then [src_buf st ! (row + col + 2), src_buf st ! (row + col + 1), src_buf st ! (row + col),
              src_buf st ! (row + col + 3)] ! (j - (q0 + col))
        else dest_buf st ! j)"
      unfolding dest1 by (rule quad_update_nth [OF j])
    show ?thesis
    proof (cases "q0 + col \<le> j \<and> j < q0 + col + 4")
      case True
      define i where "i = j - (q0 + col)"
      have i: "i < 4" and ji: "j - q0 = 4 * c + i"
        using True Suc.prems(1) unfolding i_def by linarith+
      have "dest_buf st' ! j = dest_buf st1 ! j" using nth j len1 True by simp
      also have "\<dots> = [src_buf st ! (row + col + 2), src_buf st ! (row + col + 1), src_buf st ! (row + col + 0),
              src_buf st ! (row + col + 3)] ! i" using d1 True by (simp add: i_def)
      also have "\<dots> = src_buf st ! (row + col + swap_ch i)"
        using quad_nth [OF i, of "\<lambda>k. src_buf st ! (row + col + k)"] by simp
      also have "\<dots> = src_buf st ! (row + swap_rb (j - q0))"
        using i Suc.prems(1) by (simp add: ji swap_rb_add add.assoc)
      finally show ?thesis using True col by simp
    next
      case False
      then show ?thesis using nth j len1 d1 by auto
    qed
  qed
  show ?case using run' srcs len len1 rds' wrs' nth' by simp
qed

lemma row_writes_done: "h \<le> r \<Longrightarrow> row_writes w h r = []"
  by (simp add: row_writes_def)

lemma row_writes_step:
  "r < h \<Longrightarrow> row_writes w h r =
     map int [(h - 1 - r) * (4 * w) ..< (h - r) * (4 * w)] @ row_writes w h (Suc r)"
  by (simp add: row_writes_def upt_rec [of r h])

lemma row_loop_ok:
  assumes "row = r * (4 * w)" "r \<le> h" "length (src_buf st) = h * (4 * w)"
    "length (dest_buf st) = h * (4 * w)"
  shows "\<exists>st'. row_loop w h 4 row st = Inr st' \<and>
     src_buf st' = src_buf st \<and>
     length (dest_buf st') = length (dest_buf st) \<and>
     reads st' = reads st @ map int [row ..< h * (4 * w)] \<and>
     writes st' = writes st @ row_writes w h r \<and>
     (\<forall>j < length (dest_buf st). dest_buf st' ! j =
        (if j < (h - r) * (4 * w)
         then src_buf st ! ((h - 1 - j div (4 * w)) * (4 * w) + swap_rb (j mod (4 * w)))
         else dest_buf st ! j))"
  using assms
proof (induction "h - r" arbitrary: r row st)
  case 0
  then have "\<not> row < h * (w * 4)" by simp
  then have "row_loop w h 4 row st = Inr st"
    by (subst row_loop.simps) simp
  then show ?case using 0 by (simp add: row_writes_done)
next
  case (Suc n)
  define K where "K = 4 * w"
  from Suc.hyps(2) have r: "r < h" by simp
  define d where "d = h - 1 - r"
  have h: "h = Suc r + d" using r by (simp add: d_def)
  have hr: "h - r = Suc d" using h by simp
  show ?case
  proof (cases "w = 0")
    case True
    then have "row_loop w h 4 row st = Inr st"
      by (subst row_loop.simps) simp
    then show ?thesis using True Suc.prems by (simp add: row_writes_def)
  next
    case False
    then have K: "0 < K" by (simp add: K_def)
    have row: "row = r * K" using Suc.prems(1) by (simp add: K_def)
    have lt: "row < h * K" using r K by (simp add: row)
    have rowK: "row + K \<le> h * K"
      unfolding row h by (simp add: algebra_simps)
    have q0: "(int (h * K) - int K) - int row = int (d * K)"
      unfolding row h by (simp add: algebra_simps)
    have dK: "d * K + K \<le> h * K"
      unfolding h by (simp add: algebra_simps)
    obtain st1 where
      run1: "col_loop w 4 (int (h * K) - int K) row 0 st = Inr st1"
      and src1: "src_buf st1 = src_buf st"
      and len1: "length (dest_buf st1) = length (dest_buf st)"
      and rds1: "reads st1 = reads st @ map int [row + 0 ..< row + 4 * w]"
      and wrs1: "writes st1 = writes st @ map int [d * K + 0 ..< d * K + 4 * w]"
      and nth1: "\<forall>j < length (dest_buf st). dest_buf st1 ! j =
        (if d * K + 0 \<le> j \<and> j < d * K + 4 * w then src_buf st ! (row + swap_rb (j - d * K))
         else dest_buf st ! j)"
      using col_loop_ok [of 0 0 w row st "int (h * K) - int K" "d * K"]
        rowK dK q0 Suc.prems(3,4) unfolding K_def by auto
    have "n = h - Suc r" using Suc.hyps(2) by simp
    moreover have "row + K = Suc r * (4 * w)" by (simp add: row K_def)
    moreover have "Suc r \<le> h" using r by simp
    moreover have "length (src_buf st1) = h * (4 * w)" using src1 Suc.prems(3) by simp
    moreover have "length (dest_buf st1) = h * (4 * w)" using len1 Suc.prems(4) by simp
    ultimately obtain st' where
      run: "row_loop w h 4 (row + K) st1 = Inr st'"
      and srcs: "src_buf st' = src_buf st"
      and len: "length (dest_buf st') = length (dest_buf st1)"
      and rds: "reads st' = reads st1 @ map int [row + K ..< h * (4 * w)]"
      and wrs: "writes st' = writes st1 @ row_writes w h (Suc r)"
      and nth: "\<forall>j < length (dest_buf st1). dest_buf st' ! j =
        (if j < (h - Suc r) * (4 * w)
         then src_buf st ! ((h - 1 - j div (4 * w)) * (4 * w) + swap_rb (j mod (4 * w)))
         else dest_buf st1 ! j)"
      using Suc.hyps(1) [of "Suc r" "row + K" st1] unfolding src1 by blast
    have run': "row_loop w h 4 row st = Inr st'"
      using lt run1 run
      by (subst row_loop.simps) (simp add: K_def mult.commute [of w 4])
    have rds': "reads st' = reads st @ map int [row ..< h * (4 * w)]"
    proof -
      have "[row ..< h * K] = [row ..< row + K] @ [row + K ..< h * K]"
        using rowK upt_add_eq_append [of row "row + K" "h * K - (row + K)"] by simp
      then show ?thesis using rds rds1 by (simp add: K_def)
    qed
    have wrs': "writes st' = writes st @ row_writes w h r"
      using wrs wrs1 row_writes_step [OF r, of w] hr
      by (simp add: K_def d_def add.commute)
    have nth': "dest_buf st' ! j =
        (if j < (h - r) * (4 * w)
         then src_buf st ! ((h - 1 - j div (4 * w)) * (4 * w) + swap_rb (j mod (4 * w)))
         else dest_buf st ! j)" if j: "j < length (dest_buf st)" for j
    proof -
      have d_alt: "h - Suc r = d" "h - 1 - d = r" "h - r = Suc d"
        using h by (simp_all add: d_def)
      have A: "dest_buf st' ! j =
         (if j < d * K then src_buf st ! ((h - 1 - j div K) * K + swap_rb (j mod K))
          else dest_buf st1 ! j)"
        using nth [rule_format, of j] j len1 unfolding d_alt K_def [symmetric] by simp
      have B: "dest_buf st1 ! j =
         (if d * K \<le> j \<and> j < d * K + K then src_buf st ! (row + swap_rb (j - d * K))
          else dest_buf st ! j)"
        using nth1 [rule_format, OF j] unfolding K_def [symmetric] by simp
      have goal: "dest_buf st' ! j =
         (if j < Suc d * K then src_buf st ! ((h - 1 - j div K) * K + swap_rb (j mod K))
          else dest_buf st ! j)"
      proof -
        consider "j < d * K" | "d * K \<le> j" "j < d * K + K" | "d * K + K \<le> j"
          by linarith
        then show ?thesis
        proof cases
          case 1
          then show ?thesis using A by simp
        next
          case 2
          have jd: "j div K = d"
            by (rule div_nat_eqI) (use 2 in \<open>simp_all add: algebra_simps\<close>)
          have "j = j div K * K + j mod K" by simp
          then have jm: "j mod K = j - d * K" unfolding jd by linarith
          have "dest_buf st' ! j = src_buf st ! (row + swap_rb (j - d * K))"
            using A B 2 by simp
          also have "\<dots> = src_buf st ! ((h - 1 - j div K) * K + swap_rb (j mod K))"
            unfolding jd jm d_alt row ..
          finally show ?thesis using 2 by simp
        next
          case 3
          then show ?thesis using A B by simp
        qed
      qed
      show ?thesis using goal unfolding d_alt K_def .
    qed
    show ?thesis using run' srcs len len1 rds' wrs' nth' by simp
  qed
qed

subsection \<open>The conversion as a whole\<close>

lemma convert_run_ok:
  assumes "length src = w * h * 4"
  shows "\<exists>st. convert_run src w h 4 = Inr st \<and>
     src_buf st = src \<and>
     length (dest_buf st) = length src \<and>
     reads st = map int [0 ..< length src] \<and>
     writes st = row_writes w h 0 \<and>
     (\<forall>j < length src. dest_buf st ! j =
         src ! ((h - 1 - j div (4 * w)) * (4 * w) + swap_rb (j mod (4 * w))))"
proof -
  define st0 where
    "st0 = \<lparr>src_buf = src, dest_buf = alloc (length src), reads = [], writes = []\<rparr>"
  have len: "length src = h * (4 * w)" using assms by (simp add: mult.commute)
  have "0 = 0 * (4 * w)" "0 \<le> h" "length (src_buf st0) = h * (4 * w)"
    "length (dest_buf st0) = h * (4 * w)"
    using len by (simp_all add: st0_def alloc_def)
  from row_loop_ok [OF this]
  show ?thesis
    unfolding convert_run_def st0_def [symmetric]
    using len by (auto simp: st0_def alloc_def)
qed

lemma row_writes_set: "r \<le> h \<Longrightarrow> set (row_writes w h r) = int ` {0 ..< (h - r) * (4 * w)}"
proof (induction "h - r" arbitrary: r)
  case 0
  then show ?case by (simp add: row_writes_done)
next
  case (Suc n)
  then have r: "r < h" by simp
  define d where "d = h - 1 - r"
  have d: "h - Suc r = d" "h - r = Suc d" "h - 1 - r = d" using r by (simp_all add: d_def)
  have IH: "set (row_writes w h (Suc r)) = int ` {0 ..< d * (4 * w)}"
    using Suc.hyps(1) [of "Suc r"] Suc.hyps(2) r d by simp
  have "{d * (4 * w) ..< Suc d * (4 * w)} \<union> {0 ..< d * (4 * w)} = {0 ..< Suc d * (4 * w)}"
    by auto
  then show ?case
    unfolding row_writes_step [OF r] d by (simp add: IH image_Un [symmetric])
qed

lemma row_writes_distinct: "r \<le> h \<Longrightarrow> distinct (row_writes w h r)"
proof (induction "h - r" arbitrary: r)
  case 0
  then show ?case by (simp add: row_writes_done)
next
  case (Suc n)
  then have r: "r < h" by simp
  define d where "d = h - 1 - r"
  have d: "h - Suc r = d" "h - r = Suc d" "h - 1 - r = d" using r by (simp_all add: d_def)
  have IH: "distinct (row_writes w h (Suc r))"
    using Suc.hyps(1) [of "Suc r"] Suc.hyps(2) r by simp
  have S: "set (row_writes w h (Suc r)) = int ` {0 ..< d * (4 * w)}"
    using row_writes_set [of "Suc r" h w] r d by simp
  have "int ` {d * (4 * w) ..< Suc d * (4 * w)} \<inter> int ` {0 ..< d * (4 * w)} = {}"
    by auto
  then show ?case
    unfolding row_writes_step [OF r] d
    by (simp add: IH S distinct_map)
qed

lemma convert_pixel:
  assumes len: "length src = w * h * 4"
    and run: "convert_run src w h 4 = Inr st"
    and r: "r < h" and c: "c < w" and i: "i < 4"
  shows "dest_buf st ! ((h - 1 - r) * (w * 4) + c * 4 + i) = src ! (r * (w * 4) + c * 4 + swap_ch i)"
proof -
  define K where "K = 4 * w"
  define d where "d = h - 1 - r"
  define x where "x = 4 * c + i"
  have h: "h = Suc d + r" using r by (simp add: d_def)
  have x: "x < K" using c i by (simp add: x_def K_def)
  define j where "j = d * K + x"
  have "j < d * K + K" using x by (simp add: j_def)
  also have "d * K + K \<le> h * K" unfolding h by (simp add: algebra_simps)
  finally have j: "j < length src" using len by (simp add: K_def mult.commute)
  have jd: "j div K = d" using x by (simp add: j_def)
  have jm: "j mod K = x" using x by (simp add: j_def)
  have hd: "h - 1 - d = r" using h by simp
  from convert_run_ok [OF len] run
  have "dest_buf st ! j = src ! ((h - 1 - j div K) * K + swap_rb (j mod K))"
    using j unfolding K_def by auto
  also have "\<dots> = src ! (r * K + (4 * c + swap_ch i))"
    unfolding jd jm hd using i by (simp add: x_def swap_rb_add)
  finally show ?thesis
    by (simp add: j_def x_def K_def d_def mult.commute add.assoc)
qed

text \<open>
  Claim C2. For a source buffer of length \<open>width * height * 4\<close> with positive width and
  height and four bytes per pixel, the conversion returns a buffer of the same length in
  which the bytes R, G, B, A of the pixel at row \<open>r\<close> and column \<open>c\<close>, at offset
  \<open>r * rowBytes + c * 4\<close> of the source, stand at offset \<open>(height - 1 - r) * rowBytes + c * 4\<close>
  in the order B, G, R, A. Every byte of the source is read exactly once (the reads are
  \<open>0, 1, 2, \<dots>\<close> in this order), every byte of the destination is written exactly once, and
  the source buffer is left as it was.
\<close>

theorem convertPNGtoDIB_pixels:
  assumes "0 < w" and "0 < h" and "length src = w * h * 4"
  shows "\<exists>st. convert_run src w h BPP_ALPHA = Inr st \<and>
     convertPNGtoDIB src w h BPP_ALPHA = Inr (dest_buf st) \<and>
     length (dest_buf st) = length src \<and>
     (\<forall>r < h. \<forall>c < w.
        dest_buf st ! ((h - 1 - r) * (w * 4) + c * 4) = src ! (r * (w * 4) + c * 4 + 2) \<and>
        dest_buf st ! ((h - 1 - r) * (w * 4) + c * 4 + 1) = src ! (r * (w * 4) + c * 4 + 1) \<and>
        dest_buf st ! ((h - 1 - r) * (w * 4) + c * 4 + 2) = src ! (r * (w * 4) + c * 4) \<and>
        dest_buf st ! ((h - 1 - r) * (w * 4) + c * 4 + 3) = src ! (r * (w * 4) + c * 4 + 3)) \<and>
     src_buf st = src \<and>
     reads st = map int [0 ..< length src] \<and>
     distinct (writes st) \<and>
     set (writes st) = int ` {0 ..< length src}"
proof -
  from convert_run_ok [OF assms(3)] obtain st where
    run: "convert_run src w h 4 = Inr st"
    and src: "src_buf st = src"
    and len: "length (dest_buf st) = length src"
    and rds: "reads st = map int [0 ..< length src]"
    and wrs: "writes st = row_writes w h 0"
    by blast
  have px: "dest_buf st ! ((h - 1 - r) * (w * 4) + c * 4 + i) =
      src ! (r * (w * 4) + c * 4 + swap_ch i)" if "r < h" "c < w" "i < 4" for r c i
    using convert_pixel [OF assms(3) run that] .
  have pixels: "\<forall>r < h. \<forall>c < w.
        dest_buf st ! ((h - 1 - r) * (w * 4) + c * 4) = src ! (r * (w * 4) + c * 4 + 2) \<and>
        dest_buf st ! ((h - 1 - r) * (w * 4) + c * 4 + 1) = src ! (r * (w * 4) + c * 4 + 1) \<and>
        dest_buf st ! ((h - 1 - r) * (w * 4) + c * 4 + 2) = src ! (r * (w * 4) + c * 4) \<and>
        dest_buf st ! ((h - 1 - r) * (w * 4) + c * 4 + 3) = src ! (r * (w * 4) + c * 4 + 3)"
  proof (intro allI impI)
    fix r c assume rc: "r < h" "c < w"
    show "dest_buf st ! ((h - 1 - r) * (w * 4) + c * 4) = src ! (r * (w * 4) + c * 4 + 2) \<and>
        dest_buf st ! ((h - 1 - r) * (w * 4) + c * 4 + 1) = src ! (r * (w * 4) + c * 4 + 1) \<and>
        dest_buf st ! ((h - 1 - r) * (w * 4) + c * 4 + 2) = src ! (r * (w * 4) + c * 4) \<and>
        dest_buf st ! ((h - 1 - r) * (w * 4) + c * 4 + 3) = src ! (r * (w * 4) + c * 4 + 3)"
      using px [OF rc, of 0] px [OF rc, of 1] px [OF rc, of 2] px [OF rc, of 3]
      by (simp add: swap_ch_def)
  qed
  have n: "h * (4 * w) = length src" using assms(3) by (simp add: mult.commute)
  have dist: "distinct (writes st)"
    unfolding wrs by (rule row_writes_distinct) simp
  have cover: "set (writes st) = int ` {0 ..< length src}"
    unfolding wrs using row_writes_set [of 0 h w] by (simp add: n)
  have dib: "convertPNGtoDIB src w h 4 = Inr (dest_buf st)"
    by (simp add: convertPNGtoDIB_def run)
  show ?thesis
    unfolding BPP_ALPHA_def
    using run dib len pixels src rds dist cover by blast
qed

text \<open>The two pixels of a 1 by 2 image change rows, and red and blue change places.\<close>

theorem convertPNGtoDIB_pixels_witness:
  "convertPNGtoDIB [1, 2, 3, 4, 5, 6, 7, 8] 1 2 BPP_ALPHA = Inr [7, 6, 5, 8, 3, 2, 1, 4]"
proof -
  let ?src = "[1, 2, 3, 4, 5, 6, 7, 8] :: buffer"
  have "0 < (1::nat)" "0 < (2::nat)" "length ?src = 1 * 2 * 4" by simp_all
  from convertPNGtoDIB_pixels [OF this] obtain st :: conv where
    dib: "convertPNGtoDIB ?src 1 2 BPP_ALPHA = Inr (dest_buf st)"
    and len: "length (dest_buf st) = length ?src"
    and px: "\<forall>r < 2. \<forall>c < 1.
        dest_buf st ! ((2 - 1 - r) * (1 * 4) + c * 4) = ?src ! (r * (1 * 4) + c * 4 + 2) \<and>
        dest_buf st ! ((2 - 1 - r) * (1 * 4) + c * 4 + 1) = ?src ! (r * (1 * 4) + c * 4 + 1) \<and>
        dest_buf st ! ((2 - 1 - r) * (1 * 4) + c * 4 + 2) = ?src ! (r * (1 * 4) + c * 4) \<and>
        dest_buf st ! ((2 - 1 - r) * (1 * 4) + c * 4 + 3) = ?src ! (r * (1 * 4) + c * 4 + 3)"
    by blast
  have top: "dest_buf st ! 4 = 3" "dest_buf st ! 5 = 2" "dest_buf st ! 6 = 1" "dest_buf st ! 7 = 4"
    using px [rule_format, of 0 0] by (simp_all add: numeral_2_eq_2)
  have bottom: "dest_buf st ! 0 = 7" "dest_buf st ! Suc 0 = 6" "dest_buf st ! 2 = 5" "dest_buf st ! 3 = 8"
    using px [rule_format, of 1 0] by (simp_all add: numeral_2_eq_2)
  have "dest_buf st = [7, 6, 5, 8, 3, 2, 1, 4]"
  proof (rule nth_equalityI)
    show "length (dest_buf st) = length [7, 6, 5, 8, 3, 2, 1, 4 :: byte]" using len by simp
  next
    fix k assume "k < length (dest_buf st)"
    then have "k < 8" using len by simp
    then consider (lower) "k = 0 \<or> k = 1 \<or> k = 2 \<or> k = 3"
      | (upper) "k = 4 \<or> k = 5 \<or> k = 6 \<or> k = 7"
      by linarith
    then show "dest_buf st ! k = [7, 6, 5, 8, 3, 2, 1, 4] ! k"
    proof cases
      case lower
      then show ?thesis by (auto simp: bottom)
    next
      case upper
      then show ?thesis by (auto simp: top)
    qed
  qed
  with dib show ?thesis by simp
qed

text \<open>
  Claim C10. When the source buffer has exactly \<open>width * height * 4\<close> bytes, the conversion
  returns (no access throws), every offset it reads from the source or writes to the
  destination lies in \<open>[0, width * height * 4)\<close>, and for a width or a height of 0 it
  returns the empty buffer without a single read or write.
\<close>

theorem convertPNGtoDIB_in_bounds:
  assumes "length src = w * h * 4"
  shows "\<exists>st. convert_run src w h BPP_ALPHA = Inr st \<and>
     convertPNGtoDIB src w h BPP_ALPHA = Inr (dest_buf st) \<and>
     (\<forall>i \<in> set (reads st). 0 \<le> i \<and> i < int (w * h * 4)) \<and>
     (\<forall>i \<in> set (writes st). 0 \<le> i \<and> i < int (w * h * 4)) \<and>
     (w = 0 \<or> h = 0 \<longrightarrow> dest_buf st = [] \<and> reads st = [] \<and> writes st = [])"
proof -
  define n where "n = w * h * 4"
  from convert_run_ok [OF assms] obtain st where
    run: "convert_run src w h 4 = Inr st"
    and len: "length (dest_buf st) = length src"
    and rds: "reads st = map int [0 ..< length src]"
    and wrs: "writes st = row_writes w h 0"
    by blast
  have hn: "h * (4 * w) = n" by (simp add: n_def mult.commute)
  have W: "set (writes st) = int ` {0 ..< n}"
    unfolding wrs using row_writes_set [of 0 h w] by (simp add: hn)
  have R: "set (reads st) = int ` {0 ..< n}"
    unfolding rds assms n_def by simp
  have Rb: "\<forall>i \<in> set (reads st). 0 \<le> i \<and> i < int n"
    unfolding R by auto
  have Wb: "\<forall>i \<in> set (writes st). 0 \<le> i \<and> i < int n"
    unfolding W by auto
  have dib: "convertPNGtoDIB src w h 4 = Inr (dest_buf st)"
    by (simp add: convertPNGtoDIB_def run)
  have empty: "w = 0 \<or> h = 0 \<longrightarrow> dest_buf st = [] \<and> reads st = [] \<and> writes st = []"
  proof
    assume "w = 0 \<or> h = 0"
    then have z: "n = 0" by (auto simp: n_def)
    then have "length src = 0" using assms by (simp add: n_def)
    moreover have "set (writes st) = {}" using W z by simp
    ultimately show "dest_buf st = [] \<and> reads st = [] \<and> writes st = []"
      using len rds by simp
  qed
  from run dib Rb Wb empty show ?thesis
    unfolding BPP_ALPHA_def n_def by (intro exI [of _ st] conjI)
qed

text \<open>An image of width 0, and the 1 by 2 image.\<close>

theorem convertPNGtoDIB_in_bounds_witness:
  "convertPNGtoDIB [] 0 3 BPP_ALPHA = Inr [] \<and>
   (\<exists>st. convert_run [1, 2, 3, 4, 5, 6, 7, 8] 1 2 BPP_ALPHA = Inr st \<and>
      list_all (\<lambda>i. 0 \<le> i \<and> i < 8) (reads st) \<and>
      list_all (\<lambda>i. 0 \<le> i \<and> i < 8) (writes st))"
proof -
  have "convertPNGtoDIB [] 0 3 BPP_ALPHA = Inr []"
    using convertPNGtoDIB_in_bounds [of "[]" 0 3] by auto
  moreover have "\<exists>st. convert_run [1, 2, 3, 4, 5, 6, 7, 8] 1 2 BPP_ALPHA = Inr st \<and>
      list_all (\<lambda>i. 0 \<le> i \<and> i < 8) (reads st) \<and>
      list_all (\<lambda>i. 0 \<le> i \<and> i < 8) (writes st)"
    using convertPNGtoDIB_in_bounds [of "[1, 2, 3, 4, 5, 6, 7, 8]" 1 2]
    by (auto simp: list_all_iff)
  ultimately show ?thesis by simp
qed

lemma flip_index_props:
  assumes "j < h * (4 * w)"
  shows "flip_index w h j < h * (4 * w)" and "flip_index w h (flip_index w h j) = j"
proof -
  define K where "K = 4 * w"
  have K: "0 < K" using assms by (cases "K = 0") (simp_all add: K_def)
  define d where "d = j div K"
  define x where "x = j mod K"
  have x: "x < K" using K by (simp add: x_def)
  have j: "j = d * K + x" by (simp add: d_def x_def)
  have d: "d < h" using assms K unfolding d_def K_def [symmetric]
    by (simp add: less_mult_imp_div_less)
  define d' where "d' = h - 1 - d"
  have h: "h = Suc d' + d" using d by (simp add: d'_def)
  have hd: "h - 1 - d' = d" using h by simp
  define x' where "x' = swap_rb x"
  have x': "x' < K" using x swap_rb_less [of x w] by (simp add: x'_def K_def)
  have f: "flip_index w h j = d' * K + x'"
    by (simp add: flip_index_def K_def [symmetric] d_def [symmetric] x_def [symmetric]
        d'_def x'_def)
  have "d' * K + x' < d' * K + K" using x' by simp
  also have "\<dots> \<le> h * K" unfolding h by (simp add: algebra_simps)
  finally show "flip_index w h j < h * (4 * w)" by (simp add: f K_def)
  have "flip_index w h (d' * K + x') = (h - 1 - d') * K + swap_rb x'"
    using x' by (simp add: flip_index_def K_def [symmetric])
  then show "flip_index w h (flip_index w h j) = j"
    unfolding f hd by (simp add: x'_def swap_rb_invol j)
qed

text \<open>
  Claim C9. The conversion is an involution: on a buffer of length \<open>width * height * 4\<close>,
  converting twice with the same width and height yields the original buffer.
\<close>

theorem convertPNGtoDIB_involution:
  assumes "length src = w * h * 4"
  shows "andThen (convertPNGtoDIB src w h BPP_ALPHA) (\<lambda>dib. convertPNGtoDIB dib w h BPP_ALPHA)
     = Inr src"
proof -
  have n: "w * h * 4 = h * (4 * w)" by (simp add: mult.commute)
  from convert_run_ok [OF assms] obtain st1 where
    run1: "convert_run src w h 4 = Inr st1"
    and len1: "length (dest_buf st1) = length src"
    and nth1: "\<forall>j < length src. dest_buf st1 ! j = src ! flip_index w h j"
    unfolding flip_index_def by blast
  have len1': "length (dest_buf st1) = w * h * 4" using len1 assms by simp
  from convert_run_ok [OF len1'] obtain st2 where
    run2: "convert_run (dest_buf st1) w h 4 = Inr st2"
    and len2: "length (dest_buf st2) = length (dest_buf st1)"
    and nth2: "\<forall>j < length (dest_buf st1). dest_buf st2 ! j = dest_buf st1 ! flip_index w h j"
    unfolding flip_index_def by blast
  have "dest_buf st2 = src"
  proof (rule nth_equalityI)
    show "length (dest_buf st2) = length src" using len2 len1 by simp
  next
    fix j assume "j < length (dest_buf st2)"
    then have j: "j < h * (4 * w)" using len2 len1' n by simp
    have fj: "flip_index w h j < length src"
      using flip_index_props(1) [OF j] assms n by simp
    have "dest_buf st2 ! j = dest_buf st1 ! flip_index w h j"
      using nth2 j len1' n by simp
    also have "\<dots> = src ! flip_index w h (flip_index w h j)"
      using nth1 fj by simp
    finally show "dest_buf st2 ! j = src ! j"
      by (simp add: flip_index_props(2) [OF j])
  qed
  then show ?thesis
    by (simp add: andThen_def convertPNGtoDIB_def BPP_ALPHA_def run1 run2)
qed

theorem convertPNGtoDIB_involution_witness:
  "andThen (convertPNGtoDIB [1, 2, 3, 4, 5, 6, 7, 8] 1 2 BPP_ALPHA)
     (\<lambda>dib. convertPNGtoDIB dib 1 2 BPP_ALPHA) = Inr [1, 2, 3, 4, 5, 6, 7, 8]"
  using convertPNGtoDIB_involution [of "[1, 2, 3, 4, 5, 6, 7, 8]" 1 2] by simp

subsection \<open>The inverse transform\<close>

lemma chunks_of_uniform:
  assumes "0 < n" and "length xs = m * n"
  shows "length (chunks_of n xs) = m \<and>
     (\<forall>i < m. chunks_of n xs ! i = take n (drop (i * n) xs))"
  using assms(2)
proof (induction m arbitrary: xs)
  case 0
  then show ?case by (subst chunks_of.simps) simp
next
  case (Suc m)
  then have ne: "xs \<noteq> []" using assms(1) by auto
  have unf: "chunks_of n xs = take n xs # chunks_of n (drop n xs)"
    using ne assms(1) by (subst chunks_of.simps) simp
  have "length (drop n xs) = m * n" using Suc.prems by simp
  from Suc.IH [OF this]
  have len: "length (chunks_of n (drop n xs)) = m"
    and nth: "\<And>i. i < m \<Longrightarrow> chunks_of n (drop n xs) ! i = take n (drop (i * n) (drop n xs))"
    by simp_all
  have "chunks_of n xs ! i = take n (drop (i * n) xs)" if "i < Suc m" for i
  proof (cases i)
    case 0
    then show ?thesis by (simp add: unf)
  next
    case (Suc i')
    then show ?thesis using that nth [of i'] by (simp add: unf add.commute)
  qed
  then show ?case using len by (simp add: unf)
qed

lemma concat_uniform:
  assumes "\<forall>ys \<in> set xss. length ys = n"
  shows "length (concat xss) = length xss * n"
    and "j < length xss * n \<Longrightarrow> concat xss ! j = xss ! (j div n) ! (j mod n)"
  using assms
proof (induction xss arbitrary: j)
  case Nil
  { case 1 show ?case by simp }
  { case 2 then show ?case by simp }
next
  case (Cons ys xss)
  { case 1
    then show ?case using Cons.IH(1) by simp }
  { case 2
    then have ys: "length ys = n" and rest: "\<forall>zs \<in> set xss. length zs = n" by simp_all
    have n: "0 < n" using 2(1) by (cases n) simp_all
    show ?case
    proof (cases "j < n")
      case True
      then show ?thesis using ys by (simp add: nth_append)
    next
      case False
      then have jn: "n \<le> j" by simp
      have lt: "j - n < length xss * n" using 2(1) jn by simp
      have dv: "j div n = Suc ((j - n) div n)"
        using jn n by (simp add: le_div_geq)
      have md: "j mod n = (j - n) mod n"
        using jn by (simp add: le_mod_geq)
      show ?thesis
        using False ys Cons.IH(2) [OF lt rest] by (simp add: nth_append dv md)
    qed }
qed

lemma rgba_row:
  assumes "length row = w * 4"
  shows "length (concat (map bgra_to_rgba (chunks_of 4 row))) = w * 4"
    and "x < w * 4 \<Longrightarrow>
       concat (map bgra_to_rgba (chunks_of 4 row)) ! x = row ! swap_rb x"
proof -
  let ?pxs = "map bgra_to_rgba (chunks_of 4 row)"
  from chunks_of_uniform [of 4 row w] assms
  have len: "length (chunks_of 4 row) = w"
    and nth: "\<And>c. c < w \<Longrightarrow> chunks_of 4 row ! c = take 4 (drop (c * 4) row)"
    by simp_all
  have uni: "\<forall>ys \<in> set ?pxs. length ys = 4"
    by (simp add: bgra_to_rgba_def)
  show "length (concat ?pxs) = w * 4"
    using concat_uniform(1) [OF uni] len by simp
  assume x: "x < w * 4"
  define c where "c = x div 4"
  define i where "i = x mod 4"
  have c: "c < w" using x by (simp add: c_def)
  have i: "i < 4" by (simp add: i_def)
  have xe: "x = 4 * c + i" by (simp add: c_def i_def)
  have le: "c * 4 + 4 \<le> length row" using c assms by simp
  have px: "take 4 (drop (c * 4) row) ! k = row ! (c * 4 + k)" if "k < 4" for k
    using that le by simp
  have "concat ?pxs ! x = ?pxs ! c ! i"
    using concat_uniform(2) [OF uni, of x] x len by (simp add: c_def i_def)
  also have "\<dots> = bgra_to_rgba (take 4 (drop (c * 4) row)) ! i"
    using c len nth by simp
  also have "\<dots> = [row ! (c * 4 + 2), row ! (c * 4 + 1), row ! (c * 4 + 0), row ! (c * 4 + 3)] ! i"
    unfolding bgra_to_rgba_def using px [of 0] px [of 1] px [of 2] px [of 3] by simp
  also have "\<dots> = row ! (c * 4 + swap_ch i)"
    using quad_nth [OF i, of "\<lambda>k. row ! (c * 4 + k)"] by simp
  also have "\<dots> = row ! swap_rb x"
  proof -
    have "swap_rb x = 4 * c + swap_ch i"
      unfolding xe using i by (rule swap_rb_add)
    then show ?thesis by (simp add: mult.commute)
  qed
  finally show "concat ?pxs ! x = row ! swap_rb x" .
qed

lemma DIB_to_RGBA_nth:
  assumes "length dib = h * (4 * w)"
  shows "length (DIB_to_RGBA dib w) = length dib"
    and "j < length dib \<Longrightarrow> DIB_to_RGBA dib w ! j = dib ! flip_index w h j"
proof -
  define K where "K = w * 4"
  let ?g = "\<lambda>row. concat (map bgra_to_rgba (chunks_of 4 row))"
  let ?rows = "chunks_of K dib"
  have lenK: "length dib = h * K" using assms by (simp add: K_def mult.commute)
  show "length (DIB_to_RGBA dib w) = length dib"
  proof (cases "K = 0")
    case True
    then have "chunks_of K dib = []" by (subst chunks_of.simps) simp
    then show ?thesis using True lenK by (simp add: DIB_to_RGBA_def K_def [symmetric])
  next
    case False
    then have K: "0 < K" by simp
    from chunks_of_uniform [OF K lenK]
    have len: "length ?rows = h"
      and nth: "\<And>i. i < h \<Longrightarrow> ?rows ! i = take K (drop (i * K) dib)"
      by simp_all
    have rowlen: "length row = K" if "row \<in> set ?rows" for row
    proof -
      from that obtain i where i: "i < h" and row: "row = ?rows ! i"
        using len by (auto simp: in_set_conv_nth)
      have "i * K + K \<le> h * K" using i
        by (metis Suc_leI mult_Suc mult_le_mono1 add.commute)
      then show ?thesis using nth [OF i] row lenK by simp
    qed
    have uni: "\<forall>ys \<in> set (map ?g (rev ?rows)). length ys = K"
      using rowlen rgba_row(1) [of _ w] by (auto simp: K_def)
    show ?thesis
      using concat_uniform(1) [OF uni] len lenK
      by (simp add: DIB_to_RGBA_def K_def [symmetric])
  qed
  assume j: "j < length dib"
  then have K: "0 < K" using lenK by (cases "K = 0") simp_all
  from chunks_of_uniform [OF K lenK]
  have len: "length ?rows = h"
    and nth: "\<And>i. i < h \<Longrightarrow> ?rows ! i = take K (drop (i * K) dib)"
    by simp_all
  have rowlen: "length (?rows ! i) = K" if "i < h" for i
  proof -
    have "i * K + K \<le> h * K" using that
      by (metis Suc_leI mult_Suc mult_le_mono1 add.commute)
    then show ?thesis using nth [OF that] lenK by simp
  qed
  have uni: "\<forall>ys \<in> set (map ?g (rev ?rows)). length ys = K"
  proof
    fix ys assume "ys \<in> set (map ?g (rev ?rows))"
    then obtain row where row: "row \<in> set ?rows" and ys: "ys = ?g row" by auto
    from row obtain i where "i < h" "row = ?rows ! i"
      using len by (auto simp: in_set_conv_nth)
    then have "length row = w * 4" using rowlen by (simp add: K_def)
    then show "length ys = K" using rgba_row(1) [of row w] ys by (simp add: K_def)
  qed
  define d where "d = j div K"
  define x where "x = j mod K"
  have x: "x < K" using K by (simp add: x_def)
  have d: "d < h" using j lenK K unfolding d_def by (simp add: less_mult_imp_div_less)
  define d' where "d' = h - 1 - d"
  have d': "d' < h" using d by (simp add: d'_def)
  have x': "swap_rb x < K" using x swap_rb_less [of x w] by (simp add: K_def mult.commute)
  have le: "d' * K + K \<le> h * K" using d'
    by (metis Suc_leI mult_Suc mult_le_mono1 add.commute)
  have "DIB_to_RGBA dib w ! j = map ?g (rev ?rows) ! d ! x"
    using concat_uniform(2) [OF uni, of j] j lenK len
    by (simp add: DIB_to_RGBA_def K_def [symmetric] d_def x_def)
  also have "\<dots> = ?g (?rows ! d') ! x"
    using d len by (simp add: rev_nth d'_def)
  also have "\<dots> = (?rows ! d') ! swap_rb x"
    using rgba_row(2) [of "?rows ! d'" w x] rowlen [OF d'] x by (simp add: K_def)
  also have "\<dots> = dib ! (d' * K + swap_rb x)"
  proof -
    have "d' * K \<le> d' * K + K" by simp
    also have "\<dots> \<le> h * K" by (rule le)
    finally have "d' * K \<le> length dib" unfolding lenK .
    then show ?thesis using nth [OF d'] x' by simp
  qed
  also have "\<dots> = dib ! flip_index w h j"
    by (simp add: flip_index_def d'_def d_def x_def K_def mult.commute)
  finally show "DIB_to_RGBA dib w ! j = dib ! flip_index w h j" .
qed

text \<open>
  Claim C6. Converting a top-down RGBA buffer of length \<open>width * height * 4\<close> and then
  applying the inverse transform (rows back to top-down order, B, G, R, A back to
  R, G, B, A) gives the original buffer, byte for byte.
\<close>

theorem convertPNGtoDIB_round_trip:
  assumes "length src = w * h * 4"
  shows "\<exists>dib. convertPNGtoDIB src w h BPP_ALPHA = Inr dib \<and> DIB_to_RGBA dib w = src"
proof -
  have n: "w * h * 4 = h * (4 * w)" by (simp add: mult.commute)
  from convert_run_ok [OF assms] obtain st where
    run: "convert_run src w h 4 = Inr st"
    and len: "length (dest_buf st) = length src"
    and nth: "\<forall>j < length src. dest_buf st ! j = src ! flip_index w h j"
    unfolding flip_index_def by blast
  have len': "length (dest_buf st) = h * (4 * w)" using len assms n by simp
  have "DIB_to_RGBA (dest_buf st) w = src"
  proof (rule nth_equalityI)
    show "length (DIB_to_RGBA (dest_buf st) w) = length src"
      using DIB_to_RGBA_nth(1) [OF len'] len by simp
  next
    fix j assume "j < length (DIB_to_RGBA (dest_buf st) w)"
    then have jl: "j < length (dest_buf st)" using DIB_to_RGBA_nth(1) [OF len'] by simp
    then have j: "j < h * (4 * w)" using len' by simp
    have fj: "flip_index w h j < length src"
      using flip_index_props(1) [OF j] assms n by simp
    have "DIB_to_RGBA (dest_buf st) w ! j = dest_buf st ! flip_index w h j"
      using DIB_to_RGBA_nth(2) [OF len' jl] .
    also have "\<dots> = src ! flip_index w h (flip_index w h j)"
      using nth fj by simp
    finally show "DIB_to_RGBA (dest_buf st) w ! j = src ! j"
      by (simp add: flip_index_props(2) [OF j])
  qed
  then show ?thesis
    by (simp add: convertPNGtoDIB_def BPP_ALPHA_def run)
qed

theorem convertPNGtoDIB_round_trip_witness:
  "\<exists>dib. convertPNGtoDIB [1, 2, 3, 4, 5, 6, 7, 8] 1 2 BPP_ALPHA = Inr dib \<and>
     DIB_to_RGBA dib 1 = [1, 2, 3, 4, 5, 6, 7, 8]"
  using convertPNGtoDIB_round_trip [of "[1, 2, 3, 4, 5, 6, 7, 8]" 1 2] by simp

subsection \<open>The length of a converted buffer\<close>

lemma rd_dest: "rd pos st = Inr (v, st') \<Longrightarrow> dest_buf st' = dest_buf st"
  by (auto simp: rd_def split: sum.splits)

lemma wr_length: "wr v pos st = Inr st' \<Longrightarrow> length (dest_buf st') = length (dest_buf st)"
  by (auto simp: wr_def writeUInt8_def split: sum.splits if_splits)

lemma pixel_length:
  assumes "pixel rowEnd row col st = Inr st'"
  shows "length (dest_buf st') = length (dest_buf st)"
proof -
  from assms obtain r s1 g s2 b s3 a s4 s5 s6 s7 where
    "rd (int row + int col) st = Inr (r, s1)"
    "rd (int row + int col + 1) s1 = Inr (g, s2)"
    "rd (int row + int col + 2) s2 = Inr (b, s3)"
    "rd (int row + int col + 3) s3 = Inr (a, s4)"
    "wr b (rowEnd - int row + int col) s4 = Inr s5"
    "wr g (rowEnd - int row + int col + 1) s5 = Inr s6"
    "wr r (rowEnd - int row + int col + 2) s6 = Inr s7"
    "wr a (rowEnd - int row + int col + 3) s7 = Inr st'"
    by (auto simp: pixel_def andThen_def Let_def split: sum.splits prod.splits)
  then show ?thesis
    by (auto dest!: rd_dest wr_length)
qed

lemma col_loop_length:
  "col_loop w bpp rowEnd row col st = Inr st' \<Longrightarrow> length (dest_buf st') = length (dest_buf st)"
proof (induction w bpp rowEnd row col st rule: col_loop.induct)
  case (1 w bpp rowEnd row col st)
  show ?case
  proof (cases "col < w * bpp")
    case False
    then show ?thesis using "1.prems" by (subst (asm) col_loop.simps) simp
  next
    case True
    with "1.prems" obtain st1 where
      p: "pixel rowEnd row col st = Inr st1"
      and r: "col_loop w bpp rowEnd row (col + bpp) st1 = Inr st'"
      by (subst (asm) col_loop.simps) (auto split: sum.splits)
    from "1.IH" [OF refl True p r] pixel_length [OF p] show ?thesis by simp
  qed
qed

lemma row_loop_length:
  "row_loop w h bpp row st = Inr st' \<Longrightarrow> length (dest_buf st') = length (dest_buf st)"
proof (induction w h bpp row st rule: row_loop.induct)
  case (1 w h bpp row st)
  show ?case
  proof (cases "row < h * (w * bpp)")
    case False
    then show ?thesis using "1.prems" by (subst (asm) row_loop.simps) simp
  next
    case True
    with "1.prems" obtain st1 where
      c: "col_loop w bpp (int (h * (w * bpp)) - int (w * bpp)) row 0 st = Inr st1"
      and r: "row_loop w h bpp (row + w * bpp) st1 = Inr st'"
      by (subst (asm) row_loop.simps) (auto simp: Let_def split: sum.splits)
    from "1.IH" [OF refl refl refl True c r] col_loop_length [OF c] show ?thesis by simp
  qed
qed

lemma convertPNGtoDIB_length:
  "convertPNGtoDIB src w h bpp = Inr dib \<Longrightarrow> length dib = length src"
  by (auto simp: convertPNGtoDIB_def convert_run_def alloc_def split: sum.splits
      dest!: row_loop_length)

subsection \<open>Little-endian fields\<close>

lemma le_bytes_1: "le_bytes 1 v = [word_of_int v]"
  by (simp add: le_bytes.simps)

lemma le_bytes_2: "le_bytes 2 v = [word_of_int v, word_of_int (v div 256)]"
  by (simp add: numeral_2_eq_2 le_bytes.simps)

lemma le_bytes_4:
  "le_bytes 4 v = [word_of_int v, word_of_int (v div 256), word_of_int (v div 256 div 256),
     word_of_int (v div 256 div 256 div 256)]"
  by (simp add: numeral_eq_Suc le_bytes.simps)

lemma length_le_bytes [simp]: "length (le_bytes n v) = n"
  by (induction n arbitrary: v) (auto simp: le_bytes.simps)

lemma le_val_Cons: "le_val (x # xs) = unat x + 256 * le_val xs"
  by (simp add: le_val_def)

lemma le_val_Nil: "le_val [] = 0"
  by (simp add: le_val_def)

lemma uint_byte_of_int: "uint (word_of_int v :: byte) = v mod 256"
  by (simp add: uint_word_of_int)

lemma le_val_le_bytes:
  "0 \<le> v \<Longrightarrow> v < 256 ^ n \<Longrightarrow> int (le_val (le_bytes n v)) = v"
proof (induction n arbitrary: v)
  case 0
  then show ?case by (simp add: le_val_Nil le_bytes.simps)
next
  case (Suc n)
  have d: "0 \<le> v div 256" using Suc.prems(1) by simp
  have "v = 256 * (v div 256) + v mod 256" by simp
  moreover have "0 \<le> v mod 256" by simp
  ultimately have "256 * (v div 256) < 256 * 256 ^ n" using Suc.prems(2) by simp
  then have "v div 256 < 256 ^ n" by simp
  from Suc.IH [OF d this]
  have "int (le_val (le_bytes (Suc n) v)) = v mod 256 + 256 * (v div 256)"
    using Suc.prems(1) by (simp add: le_val_Cons uint_byte_of_int le_bytes.simps)
  then show ?case by simp
qed

lemma le_val_le_bytes_nat:
  "k < 256 ^ n \<Longrightarrow> le_val (le_bytes n (int k)) = k"
proof -
  assume "k < 256 ^ n"
  then have "int k < 256 ^ n" by (metis of_nat_less_iff of_nat_numeral of_nat_power)
  then have "int (le_val (le_bytes n (int k))) = int k"
    by (intro le_val_le_bytes) simp_all
  then show ?thesis by simp
qed

lemma write_bytes_length:
  "off + length bs \<le> length b \<Longrightarrow> length (write_bytes b bs off) = length b"
  by (simp add: write_bytes_def)

lemma write_bytes_nth:
  assumes "off + length bs \<le> length b" and "i < length b"
  shows "write_bytes b bs off ! i =
     (if off \<le> i \<and> i < off + length bs then bs ! (i - off) else b ! i)"
  using assms by (auto simp: write_bytes_def nth_append)

lemma field_write_same:
  assumes "off + length bs \<le> length b"
  shows "take (length bs) (drop off (write_bytes b bs off)) = bs"
  using assms by (simp add: write_bytes_def)

lemma field_write_other:
  assumes "off + length bs \<le> length b"
    and "off' + n \<le> off \<or> off + length bs \<le> off'"
  shows "take n (drop off' (write_bytes b bs off)) = take n (drop off' b)"
proof (rule nth_equalityI)
  show "length (take n (drop off' (write_bytes b bs off))) = length (take n (drop off' b))"
    using assms(1) by (simp add: write_bytes_length)
next
  fix i assume "i < length (take n (drop off' (write_bytes b bs off)))"
  then have "i < n \<and> i < length b - off'"
    using assms(1) by (simp add: write_bytes_length)
  then have i: "i < n" "off' + i < length b"
    by linarith+
  then show "take n (drop off' (write_bytes b bs off)) ! i = take n (drop off' b) ! i"
    using assms by (auto simp: write_bytes_length write_bytes_nth)
qed

lemma list_update_write_bytes:
  "i < length b \<Longrightarrow> b[i := x] = write_bytes b [x] i"
  by (simp add: write_bytes_def upd_conv_take_nth_drop)

lemma writeUInt16LE_fill:
  assumes "0 \<le> v" "v < 65536" "length P = off" "2 \<le> r"
  shows "writeUInt16LE (P @ replicate r 0) v (int off) = Inr (P @ le_bytes 2 v @ replicate (r - 2) 0)"
  using assms by (simp add: writeUInt16LE_def write_bytes_def)

lemma writeUInt32LE_fill:
  assumes "0 \<le> v" "v < 4294967296" "length P = off" "4 \<le> r"
  shows "writeUInt32LE (P @ replicate r 0) v (int off) = Inr (P @ le_bytes 4 v @ replicate (r - 4) 0)"
  using assms by (simp add: writeUInt32LE_def write_bytes_def)

lemma writeInt32LE_fill:
  assumes "- 2147483648 \<le> v" "v < 2147483648" "length P = off" "4 \<le> r"
  shows "writeInt32LE (P @ replicate r 0) v (int off) = Inr (P @ le_bytes 4 v @ replicate (r - 4) 0)"
  using assms by (simp add: writeInt32LE_def write_bytes_def)

lemma writeUInt8_fill:
  assumes "0 \<le> v" "v < 256" "length P = off" "1 \<le> r"
  shows "writeUInt8 (P @ replicate r 0) v (int off) = Inr (P @ word_of_int v # replicate (r - 1) 0)"
proof -
  from assms(4) obtain r' where r: "r = Suc r'" by (cases r) auto
  show ?thesis
    using assms(1-3) by (simp add: writeUInt8_def r list_update_append)
qed

subsection \<open>The structure builders\<close>

lemma createFileHeader_bytes:
  assumes "count < 65536"
  shows "createFileHeader count = Inr (le_bytes 2 0 @ le_bytes 2 1 @ le_bytes 2 (int count))"
proof -
  have 1: "writeUInt16LE (alloc FILE_HEADER_SIZE) 0 0 = Inr (le_bytes 2 0 @ replicate 4 0)"
    using writeUInt16LE_fill [of 0 "[]" 0 6] by (simp add: alloc_def FILE_HEADER_SIZE_def)
  have 2: "writeUInt16LE (le_bytes 2 0 @ replicate 4 0) 1 2 = Inr (le_bytes 2 0 @ le_bytes 2 1 @ replicate 2 0)"
    using writeUInt16LE_fill [of 1 "le_bytes 2 0" 2 4] by simp
  have 3: "writeUInt16LE (le_bytes 2 0 @ le_bytes 2 1 @ replicate 2 0) (int count) 4
      = Inr (le_bytes 2 0 @ le_bytes 2 1 @ le_bytes 2 (int count))"
    using writeUInt16LE_fill [of "int count" "le_bytes 2 0 @ le_bytes 2 1" 4 2] assms by simp
  show ?thesis
    by (simp add: createFileHeader_def andThen_def 1 2 3)
qed

lemma createDirectory_bytes:
  "createDirectory p offset =
     (if length (data p) + 40 < 2 ^ 32 \<and> offset < 2 ^ 32
      then Inr (directory_bytes p offset) else Inl RangeError)"
proof -
  define w8 where "w8 = int (if 256 \<le> width p then 0 else width p)"
  define h8 where "h8 = int (if 256 \<le> height p then 0 else height p)"
  define size where "size = int (length (data p)) + 40"
  define P4 :: buffer where "P4 = [word_of_int w8, word_of_int h8, 0, 0]"
  define P6 where "P6 = P4 @ le_bytes 2 1 @ le_bytes 2 32"
  have w8: "0 \<le> w8" "w8 < 256" and h8: "0 \<le> h8" "h8 < 256"
    by (simp_all add: w8_def h8_def)
  have 1: "writeUInt8 (alloc ICO_DIRECTORY_SIZE) w8 0 = Inr (word_of_int w8 # replicate 15 0)"
    using writeUInt8_fill [of w8 "[]" 0 16] w8 by (simp add: alloc_def ICO_DIRECTORY_SIZE_def)
  have 2: "writeUInt8 (word_of_int w8 # replicate 15 0) h8 1
      = Inr (word_of_int w8 # word_of_int h8 # replicate 14 0)"
    using writeUInt8_fill [of h8 "[word_of_int w8]" 1 15] h8 by simp
  have 3: "writeUInt8 (word_of_int w8 # word_of_int h8 # replicate 14 0) 0 2
      = Inr (word_of_int w8 # word_of_int h8 # 0 # replicate 13 0)"
    using writeUInt8_fill [of 0 "[word_of_int w8, word_of_int h8]" 2 14] by simp
  have 4: "writeUInt8 (word_of_int w8 # word_of_int h8 # 0 # replicate 13 0) 0 3
      = Inr (P4 @ replicate 12 0)"
    using writeUInt8_fill [of 0 "[word_of_int w8, word_of_int h8, 0]" 3 13]
    by (simp add: P4_def)
  have lenP4: "length P4 = 4" by (simp add: P4_def)
  have 5: "writeUInt16LE (P4 @ replicate 12 0) 1 4 = Inr (P4 @ le_bytes 2 1 @ replicate 10 0)"
    using writeUInt16LE_fill [of 1 P4 4 12] lenP4 by simp
  have 6: "writeUInt16LE (P4 @ le_bytes 2 1 @ replicate 10 0) 32 6 = Inr (P6 @ replicate 8 0)"
    using writeUInt16LE_fill [of 32 "P4 @ le_bytes 2 1" 6 10] lenP4
    by (simp add: P6_def)
  have lenP6: "length P6 = 8" by (simp add: P6_def lenP4)
  have start: "createDirectory p offset =
      andThen (writeUInt32LE (P6 @ replicate 8 0) size 8) (\<lambda>b. writeUInt32LE b (int offset) 12)"
    by (simp add: createDirectory_def Let_def andThen_def BPP_ALPHA_def BITMAPINFOHEADER_SIZE_def
        w8_def [symmetric] h8_def [symmetric] size_def [symmetric] 1 2 3 4 5 6)
  show ?thesis
  proof (cases "length (data p) + 40 < 2 ^ 32")
    case False
    then have "\<not> size < 2 ^ 32" unfolding size_def by simp
    then have "writeUInt32LE (P6 @ replicate 8 0) size 8 = Inl RangeError"
      by (simp add: writeUInt32LE_def)
    then show ?thesis using False by (simp add: start andThen_def)
  next
    case True
    then have size: "0 \<le> size" "size < 4294967296" unfolding size_def by simp_all
    have 7: "writeUInt32LE (P6 @ replicate 8 0) size 8 = Inr (P6 @ le_bytes 4 size @ replicate 4 0)"
      using writeUInt32LE_fill [of size P6 8 8] size lenP6 by simp
    show ?thesis
    proof (cases "offset < 2 ^ 32")
      case False
      then have "\<not> int offset < 2 ^ 32" by simp
      then have "writeUInt32LE (P6 @ le_bytes 4 size @ replicate 4 0) (int offset) 12 = Inl RangeError"
        by (simp add: writeUInt32LE_def)
      then show ?thesis using False by (simp add: start andThen_def 7)
    next
      case fits: True
      then have off: "0 \<le> int offset" "int offset < 4294967296" by simp_all
      have 8: "writeUInt32LE (P6 @ le_bytes 4 size @ replicate 4 0) (int offset) 12
          = Inr (P6 @ le_bytes 4 size @ le_bytes 4 (int offset))"
        using writeUInt32LE_fill [of "int offset" "P6 @ le_bytes 4 size" 12 4] off lenP6 by simp
      have "createDirectory p offset = Inr (P6 @ le_bytes 4 size @ le_bytes 4 (int offset))"
        by (simp add: start andThen_def 7 8)
      moreover have "directory_bytes p offset = P6 @ le_bytes 4 size @ le_bytes 4 (int offset)"
        by (simp add: directory_bytes_def P6_def P4_def w8_def h8_def size_def)
      ultimately show ?thesis
        using True fits by simp
    qed
  qed
qed

lemma createBitmapInfoHeader_bytes:
  "createBitmapInfoHeader p BI_RGB =
     (if width p < 2 ^ 31 \<and> height p * 2 < 2 ^ 31 \<and> length (data p) < 2 ^ 32
      then Inr (header_bytes p 0) else Inl RangeError)"
proof -
  define w where "w = int (width p)"
  define h2 where "h2 = int (height p) * 2"
  define L where "L = int (length (data p))"
  define P1 where "P1 = le_bytes 4 40"
  define P2 where "P2 = P1 @ le_bytes 4 w"
  define P3 where "P3 = P2 @ le_bytes 4 h2"
  define P5 where "P5 = P3 @ le_bytes 2 1 @ le_bytes 2 32"
  define P6 where "P6 = P5 @ le_bytes 4 0"
  define P7 where "P7 = P6 @ le_bytes 4 L"
  have len: "length P1 = 4" "length P2 = 8" "length P3 = 12" "length P5 = 16"
    "length P6 = 20" "length P7 = 24"
    by (simp_all add: P1_def P2_def P3_def P5_def P6_def P7_def)
  have 1: "writeUInt32LE (alloc BITMAPINFOHEADER_SIZE) (int BITMAPINFOHEADER_SIZE) 0
      = Inr (P1 @ replicate 36 0)"
    using writeUInt32LE_fill [of 40 "[]" 0 40]
    by (simp add: alloc_def BITMAPINFOHEADER_SIZE_def P1_def)
  have 2: "writeInt32LE (P1 @ replicate 36 0) w 4 = Inr (P2 @ replicate 32 0)"
    if "w < 2 ^ 31"
    using writeInt32LE_fill [of w P1 4 36] that len by (simp add: P2_def w_def)
  have 3: "writeInt32LE (P2 @ replicate 32 0) h2 8 = Inr (P3 @ replicate 28 0)"
    if "h2 < 2 ^ 31"
    using writeInt32LE_fill [of h2 P2 8 32] that len by (simp add: P3_def h2_def)
  have 4: "writeUInt16LE (P3 @ replicate 28 0) 1 12 = Inr (P3 @ le_bytes 2 1 @ replicate 26 0)"
    using writeUInt16LE_fill [of 1 P3 12 28] len by simp
  have 5: "writeUInt16LE (P3 @ le_bytes 2 1 @ replicate 26 0) 32 14 = Inr (P5 @ replicate 24 0)"
    using writeUInt16LE_fill [of 32 "P3 @ le_bytes 2 1" 14 26] len by (simp add: P5_def)
  have 6: "writeUInt32LE (P5 @ replicate 24 0) 0 16 = Inr (P6 @ replicate 20 0)"
    using writeUInt32LE_fill [of 0 P5 16 24] len by (simp add: P6_def)
  have 7: "writeUInt32LE (P6 @ replicate 20 0) L 20 = Inr (P7 @ replicate 16 0)"
    if "L < 2 ^ 32"
    using writeUInt32LE_fill [of L P6 20 20] that len by (simp add: P7_def L_def)
  have 8: "writeInt32LE (P7 @ replicate 16 0) 0 24 = Inr (P7 @ le_bytes 4 0 @ replicate 12 0)"
    using writeInt32LE_fill [of 0 P7 24 16] len by simp
  have 9: "writeInt32LE (P7 @ le_bytes 4 0 @ replicate 12 0) 0 28
      = Inr (P7 @ le_bytes 4 0 @ le_bytes 4 0 @ replicate 8 0)"
    using writeInt32LE_fill [of 0 "P7 @ le_bytes 4 0" 28 12] len by simp
  have 10: "writeUInt32LE (P7 @ le_bytes 4 0 @ le_bytes 4 0 @ replicate 8 0) 0 32
      = Inr (P7 @ le_bytes 4 0 @ le_bytes 4 0 @ le_bytes 4 0 @ replicate 4 0)"
    using writeUInt32LE_fill [of 0 "P7 @ le_bytes 4 0 @ le_bytes 4 0" 32 8] len by simp
  have 11: "writeUInt32LE (P7 @ le_bytes 4 0 @ le_bytes 4 0 @ le_bytes 4 0 @ replicate 4 0) 0 36
      = Inr (P7 @ le_bytes 4 0 @ le_bytes 4 0 @ le_bytes 4 0 @ le_bytes 4 0)"
    using writeUInt32LE_fill [of 0 "P7 @ le_bytes 4 0 @ le_bytes 4 0 @ le_bytes 4 0" 36 4] len
    by simp
  have unf: "createBitmapInfoHeader p BI_RGB =
      andThen (writeInt32LE (P1 @ replicate 36 0) w 4) (\<lambda>b.
      andThen (writeInt32LE b h2 8) (\<lambda>b.
      andThen (writeUInt16LE b 1 12) (\<lambda>b.
      andThen (writeUInt16LE b 32 14) (\<lambda>b.
      andThen (writeUInt32LE b 0 16) (\<lambda>b.
      andThen (writeUInt32LE b L 20) (\<lambda>b.
      andThen (writeInt32LE b 0 24) (\<lambda>b.
      andThen (writeInt32LE b 0 28) (\<lambda>b.
      andThen (writeUInt32LE b 0 32) (\<lambda>b.
      writeUInt32LE b 0 36)))))))))"
    by (simp add: createBitmapInfoHeader_def Let_def 1
        BPP_ALPHA_def BI_RGB_def w_def h2_def L_def andThen_def)
  consider (w) "\<not> w < 2 ^ 31" | (h) "w < 2 ^ 31" "\<not> h2 < 2 ^ 31"
    | (l) "w < 2 ^ 31" "h2 < 2 ^ 31" "\<not> L < 2 ^ 32"
    | (ok) "w < 2 ^ 31" "h2 < 2 ^ 31" "L < 2 ^ 32"
    by blast
  then show ?thesis
  proof cases
    case w
    then have "writeInt32LE (P1 @ replicate 36 0) w 4 = Inl RangeError"
      by (simp add: writeInt32LE_def)
    then show ?thesis using w by (simp add: unf andThen_def w_def)
  next
    case h
    then have "writeInt32LE (P2 @ replicate 32 0) h2 8 = Inl RangeError"
      by (simp add: writeInt32LE_def)
    then show ?thesis using h by (simp add: unf andThen_def 2 h2_def)
  next
    case l
    then have "writeUInt32LE (P6 @ replicate 20 0) L 20 = Inl RangeError"
      by (simp add: writeUInt32LE_def)
    then show ?thesis using l by (simp add: unf andThen_def 2 3 4 5 6 L_def)
  next
    case ok
    have "createBitmapInfoHeader p BI_RGB =
        Inr (P7 @ le_bytes 4 0 @ le_bytes 4 0 @ le_bytes 4 0 @ le_bytes 4 0)"
      using ok by (simp add: unf andThen_def 2 3 4 5 6 7 8 9 10 11)
    moreover have "header_bytes p 0 = P7 @ le_bytes 4 0 @ le_bytes 4 0 @ le_bytes 4 0 @ le_bytes 4 0"
      by (simp add: header_bytes_def P7_def P6_def P5_def P3_def P2_def P1_def w_def h2_def L_def)
    ultimately show ?thesis using ok by (simp add: w_def h2_def L_def)
  qed
qed

lemma length_header_bytes: "length (header_bytes p c) = 40"
  by (simp add: header_bytes_def)

lemma length_directory_bytes: "length (directory_bytes p off) = 16"
  by (simp add: directory_bytes_def)

lemma header_fields:
  assumes "width p < 2 ^ 31" "height p * 2 < 2 ^ 31" "length (data p) < 2 ^ 32"
  shows "readUIntLE (header_bytes p 0) 0 4 = 40"
    and "readIntLE (header_bytes p 0) 4 4 = int (width p)"
    and "readIntLE (header_bytes p 0) 8 4 = int (height p * 2)"
    and "readUIntLE (header_bytes p 0) 12 2 = 1"
    and "readUIntLE (header_bytes p 0) 14 2 = 32"
    and "readUIntLE (header_bytes p 0) 16 4 = 0"
    and "readUIntLE (header_bytes p 0) 20 4 = length (data p)"
    and "readIntLE (header_bytes p 0) 24 4 = 0"
    and "readIntLE (header_bytes p 0) 28 4 = 0"
    and "readUIntLE (header_bytes p 0) 32 4 = 0"
    and "readUIntLE (header_bytes p 0) 36 4 = 0"
proof -
  have c: "le_val (le_bytes 4 40) = 40" "le_val (le_bytes 2 1) = 1" "le_val (le_bytes 2 32) = 32"
    "le_val (le_bytes 4 0) = 0"
    using le_val_le_bytes_nat [of 40 4] le_val_le_bytes_nat [of 1 2]
      le_val_le_bytes_nat [of 32 2] le_val_le_bytes_nat [of 0 4] by simp_all
  have w: "le_val (le_bytes 4 (int (width p))) = width p"
    using assms(1) by (intro le_val_le_bytes_nat) simp
  have h: "le_val (le_bytes 4 (int (height p * 2))) = height p * 2"
    using assms(2) by (intro le_val_le_bytes_nat) simp
  have l: "le_val (le_bytes 4 (int (length (data p)))) = length (data p)"
    using assms(3) by (intro le_val_le_bytes_nat) simp
  show "readUIntLE (header_bytes p 0) 0 4 = 40"
    by (simp add: readUIntLE_def header_bytes_def c)
  show "readIntLE (header_bytes p 0) 4 4 = int (width p)"
    using assms(1) w by (simp add: readIntLE_def readUIntLE_def header_bytes_def)
  show "readIntLE (header_bytes p 0) 8 4 = int (height p * 2)"
    using assms(2) h by (simp add: readIntLE_def readUIntLE_def header_bytes_def)
  show "readUIntLE (header_bytes p 0) 12 2 = 1"
    by (simp add: readUIntLE_def header_bytes_def c)
  show "readUIntLE (header_bytes p 0) 14 2 = 32"
    by (simp add: readUIntLE_def header_bytes_def c)
  show "readUIntLE (header_bytes p 0) 16 4 = 0"
    by (simp add: readUIntLE_def header_bytes_def c)
  show "readUIntLE (header_bytes p 0) 20 4 = length (data p)"
    using l by (simp add: readUIntLE_def header_bytes_def)
  show "readIntLE (header_bytes p 0) 24 4 = 0"
    by (simp add: readIntLE_def readUIntLE_def header_bytes_def c)
  show "readIntLE (header_bytes p 0) 28 4 = 0"
    by (simp add: readIntLE_def readUIntLE_def header_bytes_def c)
  show "readUIntLE (header_bytes p 0) 32 4 = 0"
    by (simp add: readUIntLE_def header_bytes_def c)
  show "readUIntLE (header_bytes p 0) 36 4 = 0"
    by (simp add: readUIntLE_def header_bytes_def c)
qed

lemma directory_fields:
  assumes "length (data p) + 40 < 2 ^ 32" "offset < 2 ^ 32"
  shows "readUIntLE (directory_bytes p offset) 0 1 = (if 256 \<le> width p then 0 else width p)"
    and "readUIntLE (directory_bytes p offset) 1 1 = (if 256 \<le> height p then 0 else height p)"
    and "readUIntLE (directory_bytes p offset) 2 1 = 0"
    and "readUIntLE (directory_bytes p offset) 3 1 = 0"
    and "readUIntLE (directory_bytes p offset) 4 2 = 1"
    and "readUIntLE (directory_bytes p offset) 6 2 = 32"
    and "readUIntLE (directory_bytes p offset) 8 4 = length (data p) + 40"
    and "readUIntLE (directory_bytes p offset) 12 4 = offset"
proof -
  have byte: "le_val [word_of_nat k] = k" if "k < 256" for k
    using that by (simp add: le_val_Cons le_val_Nil unat_of_nat)
  have zero: "le_val [0] = 0"
    by (simp add: le_val_Cons le_val_Nil)
  have c: "le_val (le_bytes 2 1) = 1" "le_val (le_bytes 2 32) = 32"
    using le_val_le_bytes_nat [of 1 2] le_val_le_bytes_nat [of 32 2] by simp_all
  have sz: "le_val (le_bytes 4 (int (length (data p) + 40))) = length (data p) + 40"
    using assms(1) by (intro le_val_le_bytes_nat) simp
  have off: "le_val (le_bytes 4 (int offset)) = offset"
    using assms(2) by (intro le_val_le_bytes_nat) simp
  show "readUIntLE (directory_bytes p offset) 0 1 = (if 256 \<le> width p then 0 else width p)"
    using byte [of "width p"] byte [of 0]
    by (simp add: readUIntLE_def directory_bytes_def)
  show "readUIntLE (directory_bytes p offset) 1 1 = (if 256 \<le> height p then 0 else height p)"
    using byte [of "height p"] byte [of 0]
    by (simp add: readUIntLE_def directory_bytes_def)
  show "readUIntLE (directory_bytes p offset) 2 1 = 0"
    by (simp add: readUIntLE_def directory_bytes_def zero)
  show "readUIntLE (directory_bytes p offset) 3 1 = 0"
    by (simp add: readUIntLE_def directory_bytes_def zero)
  show "readUIntLE (directory_bytes p offset) 4 2 = 1"
    by (simp add: readUIntLE_def directory_bytes_def c)
  show "readUIntLE (directory_bytes p offset) 6 2 = 32"
    by (simp add: readUIntLE_def directory_bytes_def c)
  show "readUIntLE (directory_bytes p offset) 8 4 = length (data p) + 40"
    using sz by (simp add: readUIntLE_def directory_bytes_def)
  show "readUIntLE (directory_bytes p offset) 12 4 = offset"
    using off by (simp add: readUIntLE_def directory_bytes_def)
qed

text \<open>
  Claim C5, as the code has it. The one-byte width and height fields of a directory entry
  hold 0 when the dimension is 256 or more, and the dimension itself when it is below 256.
  (The entry is built whenever its size and offset fit their 32-bit fields.)
\<close>

theorem createDirectory_dimensions:
  "if length (data p) + 40 < 2 ^ 32 \<and> offset < 2 ^ 32
   then \<exists>d. createDirectory p offset = Inr d \<and> length d = 16 \<and>
          readUIntLE d 0 1 = (if 256 \<le> width p then 0 else width p) \<and>
          readUIntLE d 1 1 = (if 256 \<le> height p then 0 else height p)
   else createDirectory p offset = Inl RangeError"
  using directory_fields(1,2) [of p offset]
  by (simp add: createDirectory_bytes length_directory_bytes)

text \<open>A 255 by 256 image: the width byte is 255, the height byte 0.\<close>

theorem createDirectory_dimensions_witness:
  "\<exists>d. createDirectory \<lparr>width = 255, height = 256, data = replicate (255 * 256 * 4) 0\<rparr> 22 = Inr d \<and>
     length d = 16 \<and> readUIntLE d 0 1 = 255 \<and> readUIntLE d 1 1 = 0"
  using createDirectory_dimensions
    [of "\<lparr>width = 255, height = 256, data = replicate (255 * 256 * 4) 0\<rparr>" 22]
  by simp

text \<open>
  The claim as it is worded (0 for a dimension of exactly 256, the literal value for every
  other one, nothing but 256 clamped) fails on a 257 by 512 image: both bytes are 0.
\<close>

theorem createDirectory_above_256:
  "createDirectory \<lparr>width = 257, height = 512, data = replicate (257 * 512 * 4) 0\<rparr> 22
     = Inr [0, 0, 0, 0, 1, 0, 32, 0, 40, 8, 8, 0, 22, 0, 0, 0] \<and>
   readUIntLE [0, 0, 0, 0, 1, 0, 32, 0, 40, 8, 8, 0, 22, 0, 0, 0] 0 1 \<noteq> 257 \<and>
   readUIntLE [0, 0, 0, 0, 1, 0, 32, 0, 40, 8, 8, 0, 22, 0, 0, 0] 1 1 \<noteq> 512"
  by (simp add: createDirectory_bytes directory_bytes_def le_bytes_2 le_bytes_4
      readUIntLE_def le_val_Cons le_val_Nil)

text \<open>
  Claim C7. For an image of width \<open>w\<close>, height \<open>h\<close> and pixel buffer length \<open>L\<close>, the bitmap
  info header that is emitted has exactly 40 bytes, with the little-endian fields: header
  size 40, signed width \<open>w\<close>, signed height \<open>h * 2\<close>, planes 1, bits per pixel 32,
  compression 0, image size \<open>L\<close>, and the four remaining fields 0. A header is emitted
  exactly when \<open>w\<close> and \<open>h * 2\<close> fit a signed and \<open>L\<close> an unsigned 32-bit field;
  otherwise the Buffer API throws.
\<close>

theorem createBitmapInfoHeader_fields:
  "if width p < 2 ^ 31 \<and> height p * 2 < 2 ^ 31 \<and> length (data p) < 2 ^ 32
   then \<exists>b. createBitmapInfoHeader p BI_RGB = Inr b \<and> length b = 40 \<and>
          readUIntLE b 0 4 = 40 \<and>
          readIntLE b 4 4 = int (width p) \<and>
          readIntLE b 8 4 = int (height p * 2) \<and>
          readUIntLE b 12 2 = 1 \<and>
          readUIntLE b 14 2 = 32 \<and>
          readUIntLE b 16 4 = 0 \<and>
          readUIntLE b 20 4 = length (data p) \<and>
          readIntLE b 24 4 = 0 \<and>
          readIntLE b 28 4 = 0 \<and>
          readUIntLE b 32 4 = 0 \<and>
          readUIntLE b 36 4 = 0
   else createBitmapInfoHeader p BI_RGB = Inl RangeError"
proof (cases "width p < 2 ^ 31 \<and> height p * 2 < 2 ^ 31 \<and> length (data p) < 2 ^ 32")
  case False
  then show ?thesis by (simp only: createBitmapInfoHeader_bytes if_False simp_thms)
next
  case True
  then have r: "width p < 2 ^ 31" "height p * 2 < 2 ^ 31" "length (data p) < 2 ^ 32"
    by simp_all
  have eq: "createBitmapInfoHeader p BI_RGB = Inr (header_bytes p 0)"
    using True by (simp only: createBitmapInfoHeader_bytes if_True simp_thms)
  from eq length_header_bytes [of p 0] header_fields [OF r]
  have "\<exists>b. createBitmapInfoHeader p BI_RGB = Inr b \<and> length b = 40 \<and>
          readUIntLE b 0 4 = 40 \<and>
          readIntLE b 4 4 = int (width p) \<and>
          readIntLE b 8 4 = int (height p * 2) \<and>
          readUIntLE b 12 2 = 1 \<and>
          readUIntLE b 14 2 = 32 \<and>
          readUIntLE b 16 4 = 0 \<and>
          readUIntLE b 20 4 = length (data p) \<and>
          readIntLE b 24 4 = 0 \<and>
          readIntLE b 28 4 = 0 \<and>
          readUIntLE b 32 4 = 0 \<and>
          readUIntLE b 36 4 = 0"
    by blast
  with True show ?thesis by (simp only: if_True simp_thms)
qed

text \<open>A 16 by 16 image.\<close>

theorem createBitmapInfoHeader_fields_witness:
  "createBitmapInfoHeader \<lparr>width = 16, height = 16, data = replicate (16 * 16 * 4) 0\<rparr> BI_RGB
     \<noteq> Inl RangeError \<and>
   (\<exists>b. createBitmapInfoHeader \<lparr>width = 16, height = 16, data = replicate (16 * 16 * 4) 0\<rparr> BI_RGB
       = Inr b \<and> length b = 40 \<and> readIntLE b 4 4 = 16 \<and> readIntLE b 8 4 = 32 \<and>
       readUIntLE b 20 4 = 1024)"
  using createBitmapInfoHeader_fields
    [of "\<lparr>width = 16, height = 16, data = replicate (16 * 16 * 4) 0\<rparr>"]
  by auto

subsection \<open>What the handler writes\<close>

lemma blocks_before_0: "blocks_before ps 0 = 0"
  by (simp add: blocks_before_def)

lemma blocks_before_Cons_Suc:
  "blocks_before (p # ps) (Suc i) = length (data p) + BITMAPINFOHEADER_SIZE + blocks_before ps i"
  by (simp add: blocks_before_def)

lemma blocks_before_Suc:
  "i < length ps \<Longrightarrow>
     blocks_before ps (Suc i) = blocks_before ps i + length (data (ps ! i)) + BITMAPINFOHEADER_SIZE"
  by (simp add: blocks_before_def take_Suc_conv_app_nth)

lemma length_dir_chunks: "length (dir_chunks ps offset) = length ps"
  by (induction ps arbitrary: offset) auto

lemma dir_chunks_nth:
  "i < length ps \<Longrightarrow>
     dir_chunks ps offset ! i = directory_bytes (ps ! i) (offset + blocks_before ps i)"
proof (induction ps arbitrary: offset i)
  case Nil
  then show ?case by simp
next
  case (Cons p ps)
  show ?case
  proof (cases i)
    case 0
    then show ?thesis by (simp add: blocks_before_0)
  next
    case (Suc j)
    then show ?thesis using Cons.prems Cons.IH [of j]
      by (simp add: blocks_before_Cons_Suc add.assoc)
  qed
qed

lemma length_concat_dir_chunks:
  "length (concat (dir_chunks ps offset)) = ICO_DIRECTORY_SIZE * length ps"
  by (induction ps arbitrary: offset)
    (auto simp: length_directory_bytes ICO_DIRECTORY_SIZE_def)

lemma directories_loop_chunks:
  assumes "directories_loop ps offset stream = Inr stream'"
  shows "stream' = stream @ dir_chunks ps offset"
    and "i < length ps \<Longrightarrow>
       createDirectory (ps ! i) (offset + blocks_before ps i) = Inr (dir_chunks ps offset ! i)"
  using assms
proof (induction ps arbitrary: offset stream i)
  case Nil
  { case 1 then show ?case by simp }
  { case 2 then show ?case by simp }
next
  case (Cons p ps)
  { case 1
    then obtain d where d: "createDirectory p offset = Inr d"
      and rest: "directories_loop ps (offset + (length (data p) + BITMAPINFOHEADER_SIZE))
          (stream_write stream d) = Inr stream'"
      by (auto split: sum.splits)
    from d have "d = directory_bytes p offset"
      by (auto simp: createDirectory_bytes split: if_splits)
    with Cons.IH(1) [OF rest] show ?case by (simp add: stream_write_def) }
  { case 2
    from 2(2) obtain d where d: "createDirectory p offset = Inr d"
      and rest: "directories_loop ps (offset + (length (data p) + BITMAPINFOHEADER_SIZE))
          (stream_write stream d) = Inr stream'"
      by (auto split: sum.splits)
    from d have dd: "d = directory_bytes p offset"
      by (auto simp: createDirectory_bytes split: if_splits)
    show ?case
    proof (cases i)
      case 0
      then show ?thesis using d dd by (simp add: blocks_before_0)
    next
      case (Suc j)
      then have "j < length ps" using 2(1) by simp
      from Cons.IH(2) [OF this rest] show ?thesis
        using Suc by (simp add: blocks_before_Cons_Suc add.assoc)
    qed }
qed

lemma writePNGs_chunks:
  assumes "writePNGs ps stream = Inr stream'"
  shows "stream' = stream @ concat (map (\<lambda>p. [header_bytes p 0, dib_of p]) ps)"
    and "p \<in> set ps \<Longrightarrow>
       createBitmapInfoHeader p BI_RGB = Inr (header_bytes p 0) \<and>
       convertPNGtoDIB (data p) (width p) (height p) BPP_ALPHA = Inr (dib_of p)"
  using assms
proof (induction ps arbitrary: stream)
  case Nil
  { case 1 then show ?case by simp }
  { case 2 then show ?case by simp }
next
  case (Cons q ps)
  have split: "\<exists>hd dib. createBitmapInfoHeader q BI_RGB = Inr hd \<and>
       convertPNGtoDIB (data q) (width q) (height q) BPP_ALPHA = Inr dib \<and>
       writePNGs ps (stream_write (stream_write stream hd) dib) = Inr stream'"
    if "writePNGs (q # ps) stream = Inr stream'" for stream
    using that by (auto split: sum.splits)
  { case 1
    from split [OF 1] obtain hd dib where hd: "createBitmapInfoHeader q BI_RGB = Inr hd"
      and dib: "convertPNGtoDIB (data q) (width q) (height q) BPP_ALPHA = Inr dib"
      and rest: "writePNGs ps (stream_write (stream_write stream hd) dib) = Inr stream'"
      by blast
    from hd have "hd = header_bytes q 0"
      by (auto simp: createBitmapInfoHeader_bytes split: if_splits)
    moreover from dib have "dib = dib_of q" by (simp add: dib_of_def)
    ultimately show ?case using Cons.IH(1) [OF rest] by (simp add: stream_write_def) }
  { case 2
    from split [OF 2(2)] obtain hd dib where hd: "createBitmapInfoHeader q BI_RGB = Inr hd"
      and dib: "convertPNGtoDIB (data q) (width q) (height q) BPP_ALPHA = Inr dib"
      and rest: "writePNGs ps (stream_write (stream_write stream hd) dib) = Inr stream'"
      by blast
    from hd have h: "hd = header_bytes q 0"
      by (auto simp: createBitmapInfoHeader_bytes split: if_splits)
    from dib have d: "dib = dib_of q" by (simp add: dib_of_def)
    show ?case
    proof (cases "p = q")
      case True
      then show ?thesis using hd dib h d by simp
    next
      case False
      then have "p \<in> set ps" using 2(1) by simp
      from Cons.IH(2) [OF this rest] show ?thesis .
    qed }
qed

lemma pairs_length: "length (concat (map (\<lambda>p. [f p, g p]) ps)) = 2 * length ps"
  by (induction ps) auto

lemma pairs_nth:
  assumes "i < length ps"
  shows "concat (map (\<lambda>p. [f p, g p]) ps) ! (2 * i) = f (ps ! i)"
    and "concat (map (\<lambda>p. [f p, g p]) ps) ! (2 * i + 1) = g (ps ! i)"
  using assms
proof (induction ps arbitrary: i)
  case Nil
  { case 1 then show ?case by simp }
  { case 2 then show ?case by simp }
next
  case (Cons p ps)
  { case 1 then show ?case using Cons.IH(1) [of "i - 1"] by (cases i) auto }
  { case 2 then show ?case using Cons.IH(2) [of "i - 1"] by (cases i) auto }
qed

lemma pairs_concat:
  "concat (concat (map (\<lambda>p. [f p, g p]) ps)) = concat (map (\<lambda>p. f p @ g p) ps)"
  by (induction ps) auto

lemma drop_blocks:
  assumes "\<forall>p \<in> set ps. length (blk p) = length (data p) + BITMAPINFOHEADER_SIZE"
    and "i \<le> length ps"
  shows "drop (blocks_before ps i) (concat (map blk ps)) = concat (map blk (drop i ps))"
  using assms
proof (induction ps arbitrary: i)
  case Nil
  then show ?case by (simp add: blocks_before_def)
next
  case (Cons p ps)
  show ?case
  proof (cases i)
    case 0
    then show ?thesis by (simp add: blocks_before_0)
  next
    case (Suc j)
    then have j: "j \<le> length ps" using Cons.prems(2) by simp
    have len: "length (blk p) = length (data p) + BITMAPINFOHEADER_SIZE"
      using Cons.prems(1) by simp
    have rest: "\<forall>q \<in> set ps. length (blk q) = length (data q) + BITMAPINFOHEADER_SIZE"
      using Cons.prems(1) by simp
    show ?thesis
      using Cons.IH [OF rest j] len by (simp add: Suc blocks_before_Cons_Suc)
  qed
qed

lemma on_ready_layout:
  assumes "on_ready pngs = Inr chunks"
  shows "length pngs < 65536"
    and "createFileHeader (length pngs) =
       Inr (le_bytes 2 0 @ le_bytes 2 1 @ le_bytes 2 (int (length pngs)))"
    and "chunks =
       (le_bytes 2 0 @ le_bytes 2 1 @ le_bytes 2 (int (length pngs))) #
       dir_chunks pngs (FILE_HEADER_SIZE + ICO_DIRECTORY_SIZE * length pngs) @
       concat (map (\<lambda>p. [header_bytes p 0, dib_of p]) pngs)"
    and "i < length pngs \<Longrightarrow>
       createDirectory (pngs ! i)
         (FILE_HEADER_SIZE + ICO_DIRECTORY_SIZE * length pngs + blocks_before pngs i) =
       Inr (dir_chunks pngs (FILE_HEADER_SIZE + ICO_DIRECTORY_SIZE * length pngs) ! i)"
    and "p \<in> set pngs \<Longrightarrow>
       createBitmapInfoHeader p BI_RGB = Inr (header_bytes p 0) \<and>
       convertPNGtoDIB (data p) (width p) (height p) BPP_ALPHA = Inr (dib_of p)"
proof -
  let ?hdr = "le_bytes 2 0 @ le_bytes 2 1 @ le_bytes 2 (int (length pngs))"
  let ?off0 = "FILE_HEADER_SIZE + ICO_DIRECTORY_SIZE * length pngs"
  from assms obtain hdr s1 where
    h: "createFileHeader (length pngs) = Inr hdr"
    and d: "writeDirectories pngs (stream_write [] hdr) = Inr s1"
    and w: "writePNGs pngs s1 = Inr chunks"
    by (auto simp: on_ready_def andThen_def split: sum.splits)
  have fits: "length pngs < 65536"
  proof (rule ccontr)
    assume "\<not> length pngs < 65536"
    then have "\<not> int (length pngs) < 2 ^ 16" by simp
    then have "createFileHeader (length pngs) = Inl RangeError"
      by (simp add: createFileHeader_def writeUInt16LE_def andThen_def Let_def
          FILE_HEADER_SIZE_def alloc_def split: sum.splits)
    with h show False by simp
  qed
  then show "length pngs < 65536" .
  show hdr_eq: "createFileHeader (length pngs) = Inr ?hdr"
    using fits by (rule createFileHeader_bytes)
  with h have hdr: "hdr = ?hdr" by simp
  from d have dl: "directories_loop pngs ?off0 [hdr] = Inr s1"
    by (simp add: writeDirectories_def stream_write_def)
  from directories_loop_chunks(1) [OF dl] have s1: "s1 = [hdr] @ dir_chunks pngs ?off0" .
  from writePNGs_chunks(1) [OF w] s1 hdr
  show "chunks = ?hdr # dir_chunks pngs ?off0 @
       concat (map (\<lambda>p. [header_bytes p 0, dib_of p]) pngs)"
    by simp
  show "createDirectory (pngs ! i) (?off0 + blocks_before pngs i) = Inr (dir_chunks pngs ?off0 ! i)"
    if "i < length pngs"
    using directories_loop_chunks(2) [OF dl that] .
  show "createBitmapInfoHeader p BI_RGB = Inr (header_bytes p 0) \<and>
       convertPNGtoDIB (data p) (width p) (height p) BPP_ALPHA = Inr (dib_of p)"
    if "p \<in> set pngs"
    using writePNGs_chunks(2) [OF w that] .
qed

lemma on_ready_example: "on_ready example_pngs = Inr example_chunks"
  by code_simp

text \<open>
  Claim C8. The file header that is emitted has exactly 6 bytes, with the little-endian
  fields reserved = 0, type = 1 and an image count equal to the number of images for which
  a directory entry, and a bitmap info header followed by a pixel block, are appended to
  the output: what the handler writes is the header, then one directory entry per image,
  then one header and one pixel block per image, in the order of the images.
\<close>

theorem file_header_count:
  assumes "on_ready pngs = Inr chunks"
  shows "\<exists>hdr dirs blocks.
     chunks = hdr # dirs @ blocks \<and>
     createFileHeader (length pngs) = Inr hdr \<and>
     length hdr = 6 \<and>
     readUIntLE hdr 0 2 = 0 \<and>
     readUIntLE hdr 2 2 = 1 \<and>
     readUIntLE hdr 4 2 = length dirs \<and>
     length dirs = length pngs \<and>
     length blocks = 2 * length pngs \<and>
     (\<forall>i < length pngs.
        (\<exists>offset. createDirectory (pngs ! i) offset = Inr (dirs ! i)) \<and>
        createBitmapInfoHeader (pngs ! i) BI_RGB = Inr (blocks ! (2 * i)) \<and>
        convertPNGtoDIB (data (pngs ! i)) (width (pngs ! i)) (height (pngs ! i)) BPP_ALPHA
          = Inr (blocks ! (2 * i + 1)))"
proof -
  let ?hdr = "le_bytes 2 0 @ le_bytes 2 1 @ le_bytes 2 (int (length pngs))"
  let ?dirs = "dir_chunks pngs (FILE_HEADER_SIZE + ICO_DIRECTORY_SIZE * length pngs)"
  let ?blocks = "concat (map (\<lambda>p. [header_bytes p 0, dib_of p]) pngs)"
  note L = on_ready_layout [OF assms]
  have count: "le_val (le_bytes 2 (int (length pngs))) = length pngs"
    using L(1) by (intro le_val_le_bytes_nat) simp
  have c: "le_val (le_bytes 2 0) = 0" "le_val (le_bytes 2 1) = 1"
    using le_val_le_bytes_nat [of 0 2] le_val_le_bytes_nat [of 1 2] by simp_all
  have 1: "chunks = ?hdr # ?dirs @ ?blocks" by (rule L(3))
  have 2: "createFileHeader (length pngs) = Inr ?hdr" by (rule L(2))
  have 3: "length ?hdr = 6" by simp
  have 4: "readUIntLE ?hdr 0 2 = 0" by (simp add: readUIntLE_def c)
  have 5: "readUIntLE ?hdr 2 2 = 1" by (simp add: readUIntLE_def c)
  have 7: "length ?dirs = length pngs" by (rule length_dir_chunks)
  have 6: "readUIntLE ?hdr 4 2 = length ?dirs" by (simp add: readUIntLE_def count 7)
  have 8: "length ?blocks = 2 * length pngs" by (rule pairs_length)
  have 9: "\<forall>i < length pngs.
        (\<exists>offset. createDirectory (pngs ! i) offset = Inr (?dirs ! i)) \<and>
        createBitmapInfoHeader (pngs ! i) BI_RGB = Inr (?blocks ! (2 * i)) \<and>
        convertPNGtoDIB (data (pngs ! i)) (width (pngs ! i)) (height (pngs ! i)) BPP_ALPHA
          = Inr (?blocks ! (2 * i + 1))"
  proof (intro allI impI)
    fix i assume i: "i < length pngs"
    then have mem: "pngs ! i \<in> set pngs" by simp
    have "\<exists>offset. createDirectory (pngs ! i) offset = Inr (?dirs ! i)"
      using L(4) [OF i] by blast
    moreover have "createBitmapInfoHeader (pngs ! i) BI_RGB = Inr (?blocks ! (2 * i))"
      using L(5) [OF mem] by (simp only: pairs_nth(1) [OF i])
    moreover have "convertPNGtoDIB (data (pngs ! i)) (width (pngs ! i)) (height (pngs ! i))
        BPP_ALPHA = Inr (?blocks ! (2 * i + 1))"
      using L(5) [OF mem] by (simp only: pairs_nth(2) [OF i])
    ultimately show "(\<exists>offset. createDirectory (pngs ! i) offset = Inr (?dirs ! i)) \<and>
        createBitmapInfoHeader (pngs ! i) BI_RGB = Inr (?blocks ! (2 * i)) \<and>
        convertPNGtoDIB (data (pngs ! i)) (width (pngs ! i)) (height (pngs ! i)) BPP_ALPHA
          = Inr (?blocks ! (2 * i + 1))"
      by blast
  qed
  from 1 2 3 4 5 6 7 8 9 show ?thesis by blast
qed

text \<open>The example run: a count of 2, two directory entries, two blocks.\<close>

theorem file_header_count_witness:
  "\<exists>hdr dirs blocks.
     example_chunks = hdr # dirs @ blocks \<and>
     createFileHeader (length example_pngs) = Inr hdr \<and>
     length hdr = 6 \<and>
     readUIntLE hdr 0 2 = 0 \<and>
     readUIntLE hdr 2 2 = 1 \<and>
     readUIntLE hdr 4 2 = length dirs \<and>
     length dirs = length example_pngs \<and>
     length blocks = 2 * length example_pngs \<and>
     (\<forall>i < length example_pngs.
        (\<exists>offset. createDirectory (example_pngs ! i) offset = Inr (dirs ! i)) \<and>
        createBitmapInfoHeader (example_pngs ! i) BI_RGB = Inr (blocks ! (2 * i)) \<and>
        convertPNGtoDIB (data (example_pngs ! i)) (width (example_pngs ! i))
          (height (example_pngs ! i)) BPP_ALPHA = Inr (blocks ! (2 * i + 1)))"
  by (rule file_header_count [OF on_ready_example])

text \<open>
  Claim C1. In the container assembled for a list of images, the directory entry of image 0
  carries the offset \<open>6 + 16 * imageCount\<close>; the entry of an image \<open>i > 0\<close> carries the offset
  of image \<open>i - 1\<close> plus the pixel buffer length of image \<open>i - 1\<close> plus 40; and the offset
  field of every entry is the byte position in the final byte sequence (file header, all
  directory entries in image order, then per image the header followed by the converted
  pixels) at which the 40-byte bitmap info header of that image begins, the converted
  pixels following it.
\<close>

theorem directory_offsets:
  assumes "on_ready pngs = Inr chunks" and "i < length pngs"
  shows "length chunks = 1 + 3 * length pngs \<and>
     createFileHeader (length pngs) = Inr (chunks ! 0) \<and>
     createDirectory (pngs ! i) (readUIntLE (chunks ! (1 + i)) 12 4) = Inr (chunks ! (1 + i)) \<and>
     readUIntLE (chunks ! (1 + i)) 12 4 =
       (if i = 0 then 6 + 16 * length pngs
        else readUIntLE (chunks ! i) 12 4 + length (data (pngs ! (i - 1))) + 40) \<and>
     createBitmapInfoHeader (pngs ! i) BI_RGB = Inr (chunks ! (1 + length pngs + 2 * i)) \<and>
     convertPNGtoDIB (data (pngs ! i)) (width (pngs ! i)) (height (pngs ! i)) BPP_ALPHA
       = Inr (chunks ! (2 + length pngs + 2 * i)) \<and>
     createBitmapInfoHeader (pngs ! i) BI_RGB
       = Inr (take 40 (drop (readUIntLE (chunks ! (1 + i)) 12 4) (concat chunks))) \<and>
     convertPNGtoDIB (data (pngs ! i)) (width (pngs ! i)) (height (pngs ! i)) BPP_ALPHA
       = Inr (take (length (data (pngs ! i)))
               (drop (readUIntLE (chunks ! (1 + i)) 12 4 + 40) (concat chunks)))"
proof -
  define n where "n = length pngs"
  define off0 where "off0 = FILE_HEADER_SIZE + ICO_DIRECTORY_SIZE * n"
  define off where "off = (\<lambda>k. off0 + blocks_before pngs k)"
  define hdr where "hdr = le_bytes 2 0 @ le_bytes 2 1 @ le_bytes 2 (int n)"
  define dirs where "dirs = dir_chunks pngs off0"
  define blk where "blk = (\<lambda>p. header_bytes p 0 @ dib_of p)"
  define blocks where "blocks = concat (map (\<lambda>p. [header_bytes p 0, dib_of p]) pngs)"
  note L = on_ready_layout [OF assms(1)]
  have i: "i < n" using assms(2) by (simp add: n_def)
  have chunks: "chunks = hdr # dirs @ blocks"
    using L(3) by (simp add: hdr_def dirs_def blocks_def off0_def n_def)
  have len_dirs: "length dirs = n" by (simp add: dirs_def length_dir_chunks n_def)
  have len_blocks: "length blocks = 2 * n" by (simp add: blocks_def pairs_length n_def)
  have off0: "off0 = 6 + 16 * n"
    by (simp add: off0_def FILE_HEADER_SIZE_def ICO_DIRECTORY_SIZE_def)
  \<comment> \<open>the directory entries and their offset fields\<close>
  have entry: "createDirectory (pngs ! k) (off k) = Inr (dirs ! k) \<and>
      readUIntLE (dirs ! k) 12 4 = off k" if "k < n" for k
  proof -
    have k: "k < length pngs" using that by (simp add: n_def)
    from on_ready_layout(4) [OF assms(1) k]
    have c: "createDirectory (pngs ! k) (off k) = Inr (dirs ! k)"
      by (simp add: off_def off0_def dirs_def n_def)
    then have fits: "length (data (pngs ! k)) + 40 < 2 ^ 32" "off k < 2 ^ 32"
      and eq: "dirs ! k = directory_bytes (pngs ! k) (off k)"
      by (auto simp: createDirectory_bytes split: if_splits)
    from directory_fields(8) [OF fits] c eq show ?thesis by simp
  qed
  have dir_i: "chunks ! (1 + i) = dirs ! i"
    using i len_dirs by (simp add: chunks nth_append)
  have step: "off i = (if i = 0 then 6 + 16 * n
      else readUIntLE (chunks ! i) 12 4 + length (data (pngs ! (i - 1))) + 40)"
  proof (cases i)
    case 0
    then show ?thesis by (simp add: off_def blocks_before_0 off0)
  next
    case (Suc j)
    then have j: "j < n" "j < length pngs" using i by (simp_all add: n_def)
    have "chunks ! i = dirs ! j" using Suc j len_dirs by (simp add: chunks nth_append)
    then have "readUIntLE (chunks ! i) 12 4 = off j" using entry [OF j(1)] by simp
    moreover have "off i = off j + length (data (pngs ! j)) + 40"
      using blocks_before_Suc [OF j(2)]
      by (simp add: off_def Suc BITMAPINFOHEADER_SIZE_def)
    ultimately show ?thesis using Suc by simp
  qed
  \<comment> \<open>the blocks\<close>
  have mem: "pngs ! i \<in> set pngs" using assms(2) by simp
  have hd_i: "createBitmapInfoHeader (pngs ! i) BI_RGB = Inr (header_bytes (pngs ! i) 0)"
    and dib_i: "convertPNGtoDIB (data (pngs ! i)) (width (pngs ! i)) (height (pngs ! i)) BPP_ALPHA
       = Inr (dib_of (pngs ! i))"
    using on_ready_layout(5) [OF assms(1) mem] by simp_all
  have blk_hd: "chunks ! (1 + n + 2 * i) = header_bytes (pngs ! i) 0"
    using len_dirs pairs_nth(1) [OF assms(2), of "\<lambda>p. header_bytes p 0" dib_of]
    by (simp add: chunks nth_append blocks_def)
  have blk_dib: "chunks ! (2 + n + 2 * i) = dib_of (pngs ! i)"
    using len_dirs pairs_nth(2) [OF assms(2), of "\<lambda>p. header_bytes p 0" dib_of]
    by (simp add: chunks nth_append blocks_def)
  \<comment> \<open>the bytes of the file\<close>
  have blk_len: "\<forall>p \<in> set pngs. length (blk p) = length (data p) + BITMAPINFOHEADER_SIZE"
  proof
    fix p assume "p \<in> set pngs"
    from on_ready_layout(5) [OF assms(1) this]
    have "length (dib_of p) = length (data p)"
      by (auto dest: convertPNGtoDIB_length)
    then show "length (blk p) = length (data p) + BITMAPINFOHEADER_SIZE"
      by (simp add: blk_def length_header_bytes BITMAPINFOHEADER_SIZE_def)
  qed
  have bytes: "concat chunks = hdr @ concat dirs @ concat (map blk pngs)"
    by (simp add: chunks blocks_def pairs_concat blk_def)
  have "length hdr + length (concat dirs) = off0"
    by (simp add: hdr_def dirs_def length_concat_dir_chunks off0_def FILE_HEADER_SIZE_def n_def)
  then have "drop (off i) (concat chunks) = drop (blocks_before pngs i) (concat (map blk pngs))"
    by (simp add: bytes off_def)
  also have "\<dots> = concat (map blk (drop i pngs))"
    using drop_blocks [OF blk_len] assms(2) by simp
  also have "\<dots> = header_bytes (pngs ! i) 0 @ dib_of (pngs ! i) @ concat (map blk (drop (Suc i) pngs))"
    using assms(2) by (simp add: Cons_nth_drop_Suc [symmetric] blk_def)
  finally have at: "drop (off i) (concat chunks) =
      header_bytes (pngs ! i) 0 @ dib_of (pngs ! i) @ concat (map blk (drop (Suc i) pngs))" .
  have dib_len: "length (dib_of (pngs ! i)) = length (data (pngs ! i))"
    using dib_i by (rule convertPNGtoDIB_length)
  have at_hd: "take 40 (drop (off i) (concat chunks)) = header_bytes (pngs ! i) 0"
    by (simp add: at length_header_bytes)
  have "drop (off i + 40) (concat chunks) = drop 40 (drop (off i) (concat chunks))"
    by (simp add: add.commute)
  then have at_dib: "take (length (data (pngs ! i))) (drop (off i + 40) (concat chunks))
      = dib_of (pngs ! i)"
    by (simp add: at length_header_bytes dib_len)
  have offi: "readUIntLE (chunks ! (1 + i)) 12 4 = off i"
    using entry [OF i] dir_i by simp
  have A: "length chunks = 1 + 3 * length pngs"
    using len_dirs len_blocks by (simp add: chunks n_def)
  have B: "createFileHeader (length pngs) = Inr (chunks ! 0)"
    using L(2) by (simp add: chunks hdr_def n_def)
  have C: "createDirectory (pngs ! i) (readUIntLE (chunks ! (1 + i)) 12 4) = Inr (chunks ! (1 + i))"
    unfolding offi using entry [OF i] dir_i by simp
  have D: "readUIntLE (chunks ! (1 + i)) 12 4 =
       (if i = 0 then 6 + 16 * length pngs
        else readUIntLE (chunks ! i) 12 4 + length (data (pngs ! (i - 1))) + 40)"
    unfolding offi using step by (simp add: n_def)
  have E: "createBitmapInfoHeader (pngs ! i) BI_RGB = Inr (chunks ! (1 + length pngs + 2 * i))"
    using hd_i blk_hd by (simp add: n_def)
  have F: "convertPNGtoDIB (data (pngs ! i)) (width (pngs ! i)) (height (pngs ! i)) BPP_ALPHA
       = Inr (chunks ! (2 + length pngs + 2 * i))"
    using dib_i blk_dib by (simp add: n_def)
  have G: "createBitmapInfoHeader (pngs ! i) BI_RGB
       = Inr (take 40 (drop (readUIntLE (chunks ! (1 + i)) 12 4) (concat chunks)))"
    unfolding offi using hd_i at_hd by simp
  have H: "convertPNGtoDIB (data (pngs ! i)) (width (pngs ! i)) (height (pngs ! i)) BPP_ALPHA
       = Inr (take (length (data (pngs ! i)))
               (drop (readUIntLE (chunks ! (1 + i)) 12 4 + 40) (concat chunks)))"
    unfolding offi using dib_i at_dib by simp
  from A B C D E F G H show ?thesis by (intro conjI)
qed

text \<open>The example run: the offsets are 38 and 82, and the second header begins at byte 82.\<close>

theorem directory_offsets_witness:
  "readUIntLE (example_chunks ! 1) 12 4 = 6 + 16 * 2 \<and>
   readUIntLE (example_chunks ! 2) 12 4 = readUIntLE (example_chunks ! 1) 12 4 + 4 + 40 \<and>
   createBitmapInfoHeader (example_pngs ! 1) BI_RGB
     = Inr (take 40 (drop (readUIntLE (example_chunks ! 2) 12 4) (concat example_chunks))) \<and>
   convertPNGtoDIB (data (example_pngs ! 1)) (width (example_pngs ! 1)) (height (example_pngs ! 1))
       BPP_ALPHA
     = Inr (take 8 (drop (readUIntLE (example_chunks ! 2) 12 4 + 40) (concat example_chunks)))"
proof -
  have len: "length example_pngs = 2" "length (data (example_pngs ! 0)) = 4"
    "length (data (example_pngs ! 1)) = 8"
    by (simp_all add: example_pngs_def)
  have "0 < length example_pngs" "1 < length example_pngs"
    by (simp_all add: len)
  from directory_offsets [OF on_ready_example this(1)]
    directory_offsets [OF on_ready_example this(2)]
  show ?thesis
    by (simp add: len example_chunks_def)
qed

subsection \<open>When the handler of the ready event completes\<close>

text \<open>
  The handler throws only when a value does not fit its field: more than 65535 images, a
  file of 4 GiB or more, a width or doubled height beyond 31 bits, or a pixel buffer that
  is not \<open>width * height * 4\<close> bytes long. Such an exception is not caught by
  \<open>generateICO\<close>: it escapes, and the file created by the stream stays with what had been
  written (\<open>generateICO_uncaught\<close>). For images as the decoder delivers them, below the
  limits of the fields, it does not occur (\<open>generateICO_settles\<close>).
\<close>

lemma directories_loop_returns:
  "offset + blocks_before ps (length ps) < 2 ^ 32 \<Longrightarrow>
     \<exists>stream'. directories_loop ps offset stream = Inr stream'"
proof (induction ps arbitrary: offset stream)
  case Nil
  then show ?case by simp
next
  case (Cons p ps)
  from Cons.prems have total:
    "offset + (length (data p) + BITMAPINFOHEADER_SIZE) + blocks_before ps (length ps) < 2 ^ 32"
    by (simp add: blocks_before_Cons_Suc add.assoc)
  then have "length (data p) + 40 < 2 ^ 32" "offset < 2 ^ 32"
    by (simp_all add: BITMAPINFOHEADER_SIZE_def)
  then have "createDirectory p offset = Inr (directory_bytes p offset)"
    by (simp add: createDirectory_bytes)
  with Cons.IH [OF total] show ?case by simp
qed

lemma writePNGs_returns:
  assumes "\<forall>p \<in> set ps. length (data p) = width p * height p * 4 \<and>
      width p < 2 ^ 31 \<and> height p * 2 < 2 ^ 31 \<and> length (data p) < 2 ^ 32"
  shows "\<exists>stream'. writePNGs ps stream = Inr stream'"
  using assms
proof (induction ps arbitrary: stream)
  case Nil
  then show ?case by simp
next
  case (Cons p ps)
  have mem: "p \<in> set (p # ps)" "set ps \<subseteq> set (p # ps)" by auto
  from Cons.prems mem(1) have p: "length (data p) = width p * height p * 4" "width p < 2 ^ 31"
    "height p * 2 < 2 ^ 31" "length (data p) < 2 ^ 32"
    by blast+
  from Cons.prems mem(2) have rest: "\<forall>q \<in> set ps. length (data q) = width q * height q * 4 \<and>
      width q < 2 ^ 31 \<and> height q * 2 < 2 ^ 31 \<and> length (data q) < 2 ^ 32"
    by blast
  have hd: "createBitmapInfoHeader p BI_RGB = Inr (header_bytes p 0)"
    using p(2,3,4) by (simp only: createBitmapInfoHeader_bytes if_True simp_thms)
  from convert_run_ok [OF p(1)] obtain st where
    "convert_run (data p) (width p) (height p) 4 = Inr st" by blast
  then have dib: "convertPNGtoDIB (data p) (width p) (height p) BPP_ALPHA = Inr (dest_buf st)"
    by (simp add: convertPNGtoDIB_def BPP_ALPHA_def)
  from Cons.IH [OF rest, of "stream_write (stream_write stream (header_bytes p 0)) (dest_buf st)"]
  show ?case by (simp add: hd dib)
qed

lemma block_le_blocks_before:
  "p \<in> set ps \<Longrightarrow> length (data p) + BITMAPINFOHEADER_SIZE \<le> blocks_before ps (length ps)"
  by (induction ps) (auto simp: blocks_before_Cons_Suc blocks_before_0)

lemma on_ready_returns:
  assumes "length pngs < 65536"
    and "\<forall>p \<in> set pngs. length (data p) = width p * height p * 4 \<and>
      width p < 2 ^ 31 \<and> height p * 2 < 2 ^ 31"
    and "FILE_HEADER_SIZE + ICO_DIRECTORY_SIZE * length pngs
      + blocks_before pngs (length pngs) < 2 ^ 32"
  shows "\<exists>chunks. on_ready pngs = Inr chunks"
proof -
  have hdr: "createFileHeader (length pngs) =
      Inr (le_bytes 2 0 @ le_bytes 2 1 @ le_bytes 2 (int (length pngs)))"
    using assms(1) by (rule createFileHeader_bytes)
  from directories_loop_returns [OF assms(3)] obtain s1 where
    dirs: "writeDirectories pngs
       (stream_write [] (le_bytes 2 0 @ le_bytes 2 1 @ le_bytes 2 (int (length pngs)))) = Inr s1"
    unfolding writeDirectories_def by blast
  have "\<forall>p \<in> set pngs. length (data p) = width p * height p * 4 \<and>
      width p < 2 ^ 31 \<and> height p * 2 < 2 ^ 31 \<and> length (data p) < 2 ^ 32"
  proof
    fix p assume p: "p \<in> set pngs"
    from block_le_blocks_before [OF p] assms(3)
    have "length (data p) < 2 ^ 32" by simp
    with assms(2) p show "length (data p) = width p * height p * 4 \<and>
      width p < 2 ^ 31 \<and> height p * 2 < 2 ^ 31 \<and> length (data p) < 2 ^ 32"
      by simp
  qed
  from writePNGs_returns [OF this] obtain chunks where "writePNGs pngs s1 = Inr chunks"
    by blast
  then show ?thesis
    by (simp add: on_ready_def andThen_def hdr dirs)
qed

subsection \<open>What the handler had written when it stopped\<close>

lemma directories_written_complete:
  "directories_loop ps offset stream = Inr stream' \<Longrightarrow> directories_written ps offset stream = stream'"
  by (induction ps arbitrary: offset stream) (auto split: sum.splits)

lemma PNGs_written_complete:
  "writePNGs ps stream = Inr stream' \<Longrightarrow> PNGs_written ps stream = stream'"
  by (induction ps arbitrary: stream) (auto simp: Let_def split: sum.splits)

lemma ready_written_complete:
  "on_ready pngs = Inr chunks \<Longrightarrow> ready_written pngs = chunks"
  by (auto simp: on_ready_def ready_written_def andThen_def Let_def PNGs_written_complete
      split: sum.splits)

lemma createFileHeader_too_many:
  assumes "65536 \<le> count"
  shows "createFileHeader count = Inl RangeError"
proof -
  have 1: "writeUInt16LE (alloc FILE_HEADER_SIZE) 0 0 = Inr (le_bytes 2 0 @ replicate 4 0)"
    using writeUInt16LE_fill [of 0 "[]" 0 6] by (simp add: alloc_def FILE_HEADER_SIZE_def)
  have 2: "writeUInt16LE (le_bytes 2 0 @ replicate 4 0) 1 2 = Inr (le_bytes 2 0 @ le_bytes 2 1 @ replicate 2 0)"
    using writeUInt16LE_fill [of 1 "le_bytes 2 0" 2 4] by simp
  have 3: "writeUInt16LE (le_bytes 2 0 @ le_bytes 2 1 @ replicate 2 0) (int count) 4 = Inl RangeError"
    using assms by (simp add: writeUInt16LE_def)
  show ?thesis
    by (simp add: createFileHeader_def andThen_def 1 2 3)
qed

lemma on_ready_too_many:
  "65536 \<le> length pngs \<Longrightarrow> on_ready pngs = Inl RangeError \<and> ready_written pngs = []"
  by (simp add: on_ready_def ready_written_def andThen_def createFileHeader_too_many)

text \<open>One image whose pixel buffer is a byte short: the conversion throws at the fourth read,
  after the file header, the directory entry and the bitmap header have been handed to the
  stream, and these 62 bytes are in the file.\<close>

lemma createIconFile_conversion_throws:
  "fst (createIconFile [\<lparr>width = 1, height = 1, data = [1, 2, 3]\<rparr>] ''f'' NoFault Map.empty)
     = Uncaught RangeError \<and>
   map_option length
     (snd (createIconFile [\<lparr>width = 1, height = 1, data = [1, 2, 3]\<rparr>] ''f'' NoFault Map.empty) ''f'')
     = Some 62"
  by code_simp

subsection \<open>generateICO\<close>

lemma files_logger_log [simp]: "files (logger_log line wd) = files wd"
  by (simp add: logger_log_def)

lemma unlink_refused_logger_log [simp]: "unlink_refused (logger_log line wd) = unlink_refused wd"
  by (simp add: logger_log_def)

lemma logger_log_files_same [simp]:
  "(logger_log line wd)\<lparr>files := files wd\<rparr> = logger_log line wd"
  by (cases wd) (simp add: logger_log_def)

text \<open>The three ways out of the \<^verbatim>\<open>catch\<close> block.\<close>

lemma catch_block_eq:
  "catch_block dest err wd =
     (case unlink_refused wd dest of
        Some e \<Rightarrow> (Rejected e, wd)
      | None \<Rightarrow>
          if files wd dest = None then (Rejected ENOENT, wd)
          else (Rejected err, wd\<lparr>files := (files wd)(dest := None)\<rparr>))"
  by (auto simp: catch_block_def unlinkSync_def split: option.splits)

lemma catch_block_rejects: "\<exists>e. fst (catch_block dest err wd) = Rejected e"
  by (auto simp: catch_block_eq split: option.splits)

lemma catch_block_removes:
  "catch_block dest err wd = (out, wd') \<Longrightarrow> unlink_refused wd dest = None
     \<Longrightarrow> files wd' dest = None"
  by (auto simp: catch_block_eq split: if_splits)

lemma createIconFile_empty: "createIconFile [] file_path fault fs = (Rejected NoMatchingPNG, fs)"
  by (simp add: createIconFile_def)

lemma generateICO_no_match:
  assumes "readPNGs env (files wd) images (opt_sizes opts) = Inr []"
  shows "generateICO env images dir opts wd =
     (case unlink_refused wd (dest_path env dir opts) of
        Some e \<Rightarrow> (Rejected e, logger_log ''ICO:'' wd)
      | None \<Rightarrow>
          if files wd (dest_path env dir opts) = None
          then (Rejected ENOENT, logger_log ''ICO:'' wd)
          else (Rejected NoMatchingPNG,
                (logger_log ''ICO:'' wd)\<lparr>files := (files wd)(dest_path env dir opts := None)\<rparr>))"
  using assms
  by (simp add: generateICO_def Let_def createIconFile_empty catch_block_eq
      split: option.splits)

lemma readPNGs_no_targets:
  "filterImagesBySizes env images szs = [] \<Longrightarrow> readPNGs env fs images szs = Inr []"
  by (simp add: readPNGs_def)

text \<open>
  Claim C3. When no image is left after the size filtering, the operation is to fail with
  the "no matching images" error, before any output is created, and no file is to exist at
  the destination afterwards. \<open>createIconFile\<close> does reject with that error before a stream
  is opened (\<open>createIconFile_empty\<close>), and the operation creates no file
  (\<open>generateICO_no_match\<close>). The error the caller receives is another one when there was no
  file at the destination before the call: the \<^verbatim>\<open>catch\<close> block unlinks the destination,
  \<^verbatim>\<open>unlinkSync\<close> throws \<^verbatim>\<open>ENOENT\<close>, and that exception replaces the one being handled. Here
  the code is run on an empty list of images and a destination that does not exist.
\<close>

theorem generateICO_no_match_unlink_throws:
  "generateICO (example_env NoFault) [] ''out'' \<lparr>name = None, sizes = None\<rparr> example_world
     = (Rejected ENOENT, example_world\<lparr>logged := [''ICO:'']\<rparr>)"
proof -
  have "readPNGs (example_env NoFault) (files example_world) [] (opt_sizes \<lparr>name = None, sizes = None\<rparr>)
      = Inr []"
    by (rule readPNGs_no_targets) (simp add: example_env_def)
  from generateICO_no_match [OF this, of "''out''"] show ?thesis
    by (simp add: dest_path_def example_env_def opt_name_def DEFAULT_FILE_NAME_def
        FILE_EXTENSION_def example_world_def logger_log_def)
qed

text \<open>A failure before the stream exists, and a failed open, end in the \<^verbatim>\<open>catch\<close> block with
  the files as they were before the call.\<close>

lemma generateICO_read_failure:
  assumes "readPNGs env (files wd) images (opt_sizes opts) = Inl e"
  shows "generateICO env images dir opts wd
     = catch_block (dest_path env dir opts) e (logger_log ''ICO:'' wd)"
  using assms by (simp add: generateICO_def Let_def)

lemma generateICO_open_failure:
  assumes "readPNGs env (files wd) images (opt_sizes opts) = Inr pngs"
    and "pngs \<noteq> []" and "sink env = OpenFault e"
  shows "generateICO env images dir opts wd
     = catch_block (dest_path env dir opts) e (logger_log ''ICO:'' wd)"
  using assms by (simp add: generateICO_def Let_def createIconFile_def)

text \<open>
  Claim C4. For every failure of the operation (a source that cannot be decoded, a
  destination that cannot be opened, a failed write, a failed final flush) the destination
  file is to be removed before the error is propagated to the caller, on every failure
  path. The \<^verbatim>\<open>catch\<close> block of \<open>generateICO\<close> attempts this: it unlinks the destination and
  rethrows the error. It misses the destination that does not exist. Here the code is run
  on one image whose file is not a PNG, with nothing at the destination: the decoder
  throws before any stream is created, \<^verbatim>\<open>unlinkSync\<close> throws \<^verbatim>\<open>ENOENT\<close> in the \<^verbatim>\<open>catch\<close> block,
  and the caller receives \<^verbatim>\<open>ENOENT\<close> in place of the decode failure. This is the defect of
  claim C3; a destination that cannot be opened meets it the same way
  (\<open>generateICO_fresh_destination\<close>). Two further paths leave a partial file behind: an
  exception thrown inside the handler of \<^verbatim>\<open>ready\<close> is not caught at all
  (\<open>generateICO_uncaught\<close>), and an unlink that is refused throws from the \<^verbatim>\<open>catch\<close> block
  (\<open>generateICO_unlink_refused\<close>). Where the stream has created the file and the unlink is
  not refused, the file is removed and the error of the stream is propagated
  (\<open>generateICO_write_failure\<close>).
\<close>

theorem generateICO_decode_failure_unlink_throws:
  "readPNGs (example_env NoFault) [''bad.png'' \<mapsto> [1, 2, 3]] [\<lparr>filePath = ''bad.png''\<rparr>]
      (opt_sizes \<lparr>name = None, sizes = None\<rparr>) = Inl DecodeFailure \<and>
   generateICO (example_env NoFault) [\<lparr>filePath = ''bad.png''\<rparr>] ''out''
      \<lparr>name = None, sizes = None\<rparr> (example_world\<lparr>files := [''bad.png'' \<mapsto> [1, 2, 3]]\<rparr>)
     = (Rejected ENOENT,
        example_world\<lparr>files := [''bad.png'' \<mapsto> [1, 2, 3]], logged := [''ICO:'']\<rparr>)"
proof -
  let ?wd = "example_world\<lparr>files := [''bad.png'' \<mapsto> [1, 2, 3]]\<rparr>"
  have decode: "readPNGs (example_env NoFault) [''bad.png'' \<mapsto> [1, 2, 3]]
      [\<lparr>filePath = ''bad.png''\<rparr>] (opt_sizes \<lparr>name = None, sizes = None\<rparr>) = Inl DecodeFailure"
    by (simp add: readPNGs_def example_env_def readFileSync_def)
  then have "readPNGs (example_env NoFault) (files ?wd) [\<lparr>filePath = ''bad.png''\<rparr>]
      (opt_sizes \<lparr>name = None, sizes = None\<rparr>) = Inl DecodeFailure"
    by simp
  from generateICO_read_failure [OF this, of "''out''"] have "generateICO (example_env NoFault)
      [\<lparr>filePath = ''bad.png''\<rparr>] ''out'' \<lparr>name = None, sizes = None\<rparr> ?wd
     = (Rejected ENOENT,
        example_world\<lparr>files := [''bad.png'' \<mapsto> [1, 2, 3]], logged := [''ICO:'']\<rparr>)"
    by (simp add: catch_block_eq dest_path_def example_env_def opt_name_def DEFAULT_FILE_NAME_def
        FILE_EXTENSION_def example_world_def logger_log_def)
  with decode show ?thesis by simp
qed

text \<open>The error that is lost, in general: with nothing at the destination, a failure to
  read or decode a source and a failure to open the destination both reach the caller as
  \<^verbatim>\<open>ENOENT\<close>, whatever the error was.\<close>

lemma generateICO_fresh_destination:
  assumes "files wd (dest_path env dir opts) = None"
    and "unlink_refused wd (dest_path env dir opts) = None"
    and "(\<exists>e. readPNGs env (files wd) images (opt_sizes opts) = Inl e) \<or>
      (\<exists>pngs e. readPNGs env (files wd) images (opt_sizes opts) = Inr pngs \<and> pngs \<noteq> [] \<and>
         sink env = OpenFault e)"
  shows "generateICO env images dir opts wd = (Rejected ENOENT, logger_log ''ICO:'' wd)"
  using assms(3)
proof (elim disjE exE conjE)
  fix e assume "readPNGs env (files wd) images (opt_sizes opts) = Inl e"
  from generateICO_read_failure [OF this] assms(1,2) show ?thesis
    by (simp add: catch_block_eq)
next
  fix pngs e
  assume "readPNGs env (files wd) images (opt_sizes opts) = Inr pngs" "pngs \<noteq> []"
    "sink env = OpenFault e"
  from generateICO_open_failure [OF this] assms(1,2) show ?thesis
    by (simp add: catch_block_eq)
qed

text \<open>A failure of the stream after it has created the file: a failed write, or a failed
  final flush. The file is there, so the unlink finds it: when it is not refused, the
  partial file is removed and the caller receives the error of the stream.\<close>

lemma generateICO_write_failure:
  assumes "readPNGs env (files wd) images (opt_sizes opts) = Inr pngs"
    and "pngs \<noteq> []" and "on_ready pngs = Inr chunks"
    and "(\<exists>k. sink env = WriteFault k e \<and> k < length chunks) \<or> sink env = FinishFault e"
    and "unlink_refused wd (dest_path env dir opts) = None"
  shows "generateICO env images dir opts wd
     = (Rejected e,
        (logger_log ''ICO:'' wd)\<lparr>files := (files wd)(dest_path env dir opts := None)\<rparr>)"
  using assms
  by (auto simp: generateICO_def Let_def createIconFile_def catch_block_eq)

lemma example_write_fault:
  "fst (generateICO (example_env (WriteFault 2 WriteFailure)) [\<lparr>filePath = ''a.png''\<rparr>] ''out''
      \<lparr>name = None, sizes = None\<rparr> example_world) = Rejected WriteFailure \<and>
   files (snd (generateICO (example_env (WriteFault 2 WriteFailure)) [\<lparr>filePath = ''a.png''\<rparr>]
      ''out'' \<lparr>name = None, sizes = None\<rparr> example_world)) ''out/app.ico'' = None"
  by code_simp

text \<open>The same failure when the unlink is refused: the \<^verbatim>\<open>catch\<close> block throws the error of
  the unlink, and the partial file stays.\<close>

lemma generateICO_unlink_refused:
  assumes "readPNGs env (files wd) images (opt_sizes opts) = Inr pngs"
    and "pngs \<noteq> []" and "on_ready pngs = Inr chunks"
    and "sink env = WriteFault k e" and "k < length chunks"
    and "unlink_refused wd (dest_path env dir opts) = Some e'"
  shows "generateICO env images dir opts wd
     = (Rejected e',
        (logger_log ''ICO:'' wd)\<lparr>files :=
           (files wd)(dest_path env dir opts \<mapsto> concat (take k chunks))\<rparr>)"
  using assms
  by (simp add: generateICO_def Let_def createIconFile_def catch_block_eq)

text \<open>Whenever the promise of \<open>generateICO\<close> is rejected and the unlink of the destination
  is not refused, no file is at the destination.\<close>

lemma generateICO_rejected_removes:
  assumes "generateICO env images dir opts wd = (Rejected err, wd')"
    and "unlink_refused wd (dest_path env dir opts) = None"
  shows "files wd' (dest_path env dir opts) = None"
  using assms
  by (auto simp: generateICO_def Let_def logger_log_def
      split: sum.splits prod.splits outcome.splits dest: catch_block_removes)

text \<open>A stream that cannot be closed has finished before: the operation succeeds, and the
  complete file is there.\<close>

lemma generateICO_close_failure:
  assumes "readPNGs env (files wd) images (opt_sizes opts) = Inr pngs"
    and "pngs \<noteq> []" and "on_ready pngs = Inr chunks" and "sink env = CloseFault e"
  shows "generateICO env images dir opts wd
     = (Resolved (dest_path env dir opts),
        logger_log (''  Create: '' @ dest_path env dir opts)
          ((logger_log ''ICO:'' wd)\<lparr>files :=
             (files wd)(dest_path env dir opts \<mapsto> concat chunks)\<rparr>))"
  using assms
  by (simp add: generateICO_def Let_def createIconFile_def)

text \<open>An exception thrown by the handler of \<^verbatim>\<open>ready\<close> escapes: the \<^verbatim>\<open>catch\<close> block does not
  run, and the file holds what the handler had written.\<close>

lemma generateICO_uncaught:
  assumes "readPNGs env (files wd) images (opt_sizes opts) = Inr pngs"
    and "pngs \<noteq> []" and "on_ready pngs = Inl e" and "\<forall>err. sink env \<noteq> OpenFault err"
    and "\<forall>k err. sink env = WriteFault k err \<longrightarrow> length (ready_written pngs) \<le> k"
  shows "generateICO env images dir opts wd
     = (Uncaught e,
        (logger_log ''ICO:'' wd)\<lparr>files :=
           (files wd)(dest_path env dir opts \<mapsto> concat (ready_written pngs))\<rparr>)"
  using assms
  by (cases "sink env") (simp_all add: generateICO_def Let_def createIconFile_def)

text \<open>With more than 65535 images the file header cannot hold the count: the first
  statement of the handler throws, and an empty file stays at the destination.\<close>

lemma generateICO_too_many_images:
  assumes "readPNGs env (files wd) images (opt_sizes opts) = Inr pngs"
    and "65536 \<le> length pngs" and "sink env = NoFault"
  shows "generateICO env images dir opts wd
     = (Uncaught RangeError,
        (logger_log ''ICO:'' wd)\<lparr>files := (files wd)(dest_path env dir opts \<mapsto> [])\<rparr>)"
proof -
  from assms(2) have "pngs \<noteq> []" by auto
  from generateICO_uncaught [OF assms(1) this, of RangeError dir]
    on_ready_too_many [OF assms(2)] assms(3)
  show ?thesis by simp
qed

lemma generateICO_settles:
  assumes "readPNGs env (files wd) images (opt_sizes opts) = Inr pngs"
    and "length pngs < 65536"
    and "\<forall>p \<in> set pngs. length (data p) = width p * height p * 4 \<and>
      width p < 2 ^ 31 \<and> height p * 2 < 2 ^ 31"
    and "FILE_HEADER_SIZE + ICO_DIRECTORY_SIZE * length pngs
      + blocks_before pngs (length pngs) < 2 ^ 32"
  shows "fst (generateICO env images dir opts wd) \<noteq> Uncaught e"
proof -
  from on_ready_returns [OF assms(2,3,4)] obtain chunks where
    "on_ready pngs = Inr chunks" by blast
  then show ?thesis
    using assms(1)
    by (cases "sink env")
      (auto simp: generateICO_def Let_def createIconFile_def catch_block_eq
        split: if_splits option.splits)
qed

end
